theory Spec2Isabelle
  imports Main "HOL-Library.Word"
begin

unbundle bit_operations_syntax

section \<open>Robust audio link: BFSK sender and receiver\<close>

text \<open>
  The development follows \<^verbatim>\<open>sender.c\<close> and \<^verbatim>\<open>receiver.c\<close>. Bytes are
  \<open>8 word\<close>, \<^verbatim>\<open>uint32_t\<close> is \<open>32 word\<close>; sample positions (\<^verbatim>\<open>long long\<close>) and
  the \<^verbatim>\<open>int\<close> parameters \<^verbatim>\<open>spb\<close>, \<^verbatim>\<open>pre_bits\<close>, \<^verbatim>\<open>n\<close>, \<^verbatim>\<open>fs\<close> are \<open>int\<close>: they
  stay far below the 64-bit range for every buffer that fits in memory.
\<close>

type_synonym u8 = "8 word"
type_synonym u32 = "32 word"

subsection \<open>CRC-32 (both programs carry the same two functions)\<close>

text \<open>
  One pass of the inner loop of \<^verbatim>\<open>crc32_init\<close>:
  \<^verbatim>\<open>c = (c & 1u) ? (poly ^ (c >> 1)) : (c >> 1)\<close> with \<^verbatim>\<open>poly = 0xEDB88320u\<close>.
\<close>

definition poly :: u32 where
  "poly = 0xEDB88320"

definition crc32_init_step :: "u32 \<Rightarrow> u32" where
  "crc32_init_step c = (if c AND 1 \<noteq> 0 then poly XOR drop_bit 1 c else drop_bit 1 c)"

text \<open>\<^verbatim>\<open>crc32_init\<close>: entry \<open>i\<close> is \<open>i\<close> after eight passes, for \<open>i = 0 .. 255\<close>.\<close>

definition crc32_init :: "u32 list" where
  "crc32_init = map (\<lambda>i. (crc32_init_step ^^ 8) (word_of_nat i)) [0..<256]"

text \<open>
  \<^verbatim>\<open>crc32_compute\<close>: \<^verbatim>\<open>c = crc32_table[(c ^ data[i]) & 0xFFu] ^ (c >> 8)\<close> over the
  bytes in order, from \<^verbatim>\<open>0xFFFFFFFFu\<close>, with a final XOR. The table is the global
  array, passed explicitly.
\<close>

definition crc32_round :: "u32 list \<Rightarrow> u32 \<Rightarrow> u8 \<Rightarrow> u32" where
  "crc32_round tbl c d = (tbl ! unat ((c XOR ucast d) AND 0xFF)) XOR drop_bit 8 c"

definition crc32_compute :: "u32 list \<Rightarrow> u8 list \<Rightarrow> u32" where
  "crc32_compute tbl data = foldl (crc32_round tbl) 0xFFFFFFFF data XOR 0xFFFFFFFF"

text \<open>
  The reference the specification names: the bit-at-a-time CRC-32, reflected. The
  register starts at \<open>0xFFFFFFFF\<close>; every input byte is fed least significant bit
  first; a bit is fed by comparing it with the low bit of the register, shifting the
  register right and XOR-ing the reversed polynomial \<open>0xEDB88320\<close> in when the two
  differ; the result is the register XOR \<open>0xFFFFFFFF\<close>.
\<close>

definition ref_feed_bit :: "u32 \<Rightarrow> bool \<Rightarrow> u32" where
  "ref_feed_bit c b = (if bit c 0 \<noteq> b then drop_bit 1 c XOR 0xEDB88320 else drop_bit 1 c)"

definition ref_feed_byte :: "u32 \<Rightarrow> u8 \<Rightarrow> u32" where
  "ref_feed_byte c d = foldl ref_feed_bit c (map (bit d) [0..<8])"

definition crc32_reference :: "u8 list \<Rightarrow> u32" where
  "crc32_reference data = foldl ref_feed_byte 0xFFFFFFFF data XOR 0xFFFFFFFF"

subsection \<open>Sender: frame construction (\<^verbatim>\<open>main\<close> of \<^verbatim>\<open>sender.c\<close>, lines 159 to 174)\<close>

text \<open>
  A buffer from \<^verbatim>\<open>malloc\<close> holds unspecified bytes: \<open>junk\<close> supplies them.
  \<^verbatim>\<open>memcpy(dst + off, src, |src|)\<close> stores the source bytes one by one.
\<close>

definition malloc_bytes :: "(nat \<Rightarrow> u8) \<Rightarrow> nat \<Rightarrow> u8 list" where
  "malloc_bytes junk n = map junk [0..<n]"

definition memcpy :: "u8 list \<Rightarrow> nat \<Rightarrow> u8 list \<Rightarrow> u8 list" where
  "memcpy dst off src = foldl (\<lambda>f i. f[off + i := src ! i]) dst [0..<length src]"

text \<open>
  \<^verbatim>\<open>clen\<close> is the \<^verbatim>\<open>int\<close> the crypto adapter returned (not negative here: a negative
  value has left \<^verbatim>\<open>main\<close> before), the length of the ciphertext. The four length bytes
  are \<^verbatim>\<open>(clen>>24)&0xFF\<close> and so on, on that \<^verbatim>\<open>int\<close>; the four CRC bytes are the same
  expressions on the \<^verbatim>\<open>uint32_t crc\<close>.
\<close>

definition build_frame :: "(nat \<Rightarrow> u8) \<Rightarrow> u8 list \<Rightarrow> u8 list" where
  "build_frame junk cipher =
    (let clen = int (length cipher);
         frame_no_crc = 4 + 4 + nat clen;
         frame_total = frame_no_crc + 4;
         frame = malloc_bytes junk frame_total;
         frame = frame[0 := 0x53, 1 := 0x54, 2 := 0x45, 3 := 0x47];
         frame = frame[4 := word_of_int (drop_bit 24 clen AND 0xFF),
                       5 := word_of_int (drop_bit 16 clen AND 0xFF),
                       6 := word_of_int (drop_bit 8 clen AND 0xFF),
                       7 := word_of_int (clen AND 0xFF)];
         frame = memcpy frame 8 cipher;
         crc = crc32_compute crc32_init (take frame_no_crc frame)
     in frame[frame_no_crc + 0 := ucast (drop_bit 24 crc AND 0xFF),
              frame_no_crc + 1 := ucast (drop_bit 16 crc AND 0xFF),
              frame_no_crc + 2 := ucast (drop_bit 8 crc AND 0xFF),
              frame_no_crc + 3 := ucast (crc AND 0xFF)])"

text \<open>
  \<open>MAGIC\<close> is the four bytes \<^verbatim>\<open>'S' 'T' 'E' 'G'\<close> that both programs spell out. The wire
  format in the specification's words uses \<open>BE32\<close>, the four bytes of a 32-bit value from
  the most significant to the least; \<open>be32_value\<close> reads four such bytes back as a number.
\<close>

definition MAGIC :: "u8 list" where
  "MAGIC = [0x53, 0x54, 0x45, 0x47]"

definition BE32 :: "u32 \<Rightarrow> u8 list" where
  "BE32 w = [ucast (drop_bit 24 w), ucast (drop_bit 16 w), ucast (drop_bit 8 w), ucast w]"

definition be32_value :: "u8 list \<Rightarrow> nat" where
  "be32_value bs = foldl (\<lambda>a b. a * 256 + unat b) 0 bs"

subsection \<open>Sender: modulator (\<^verbatim>\<open>main\<close> of \<^verbatim>\<open>sender.c\<close>, lines 178 to 284)\<close>

definition REP :: int where
  "REP = 3"

text \<open>
  The value of one output sample is floating-point work (\<^verbatim>\<open>hann\<close>, \<^verbatim>\<open>sinf\<close>, the cover
  mix, \<^verbatim>\<open>clampf\<close>): \<open>synth b si s\<close> stands for what the loop body stores for a symbol of
  bit \<open>b\<close> at stream index \<open>si\<close> and in-symbol index \<open>s\<close>. The body \<^verbatim>\<open>buf[si++] = ...\<close>
  with \<^verbatim>\<open>si\<close> starting at 0 fills the buffer front to back: the model appends, and
  \<^verbatim>\<open>si\<close> is the number of samples stored so far.
\<close>

function emit_symbol :: "(bool \<Rightarrow> int \<Rightarrow> int \<Rightarrow> 'a) \<Rightarrow> bool \<Rightarrow> int \<Rightarrow> int \<Rightarrow> 'a list \<Rightarrow> 'a list" where
  "emit_symbol synth b spb s buf =
     (if s < spb then emit_symbol synth b spb (s + 1) (buf @ [synth b (int (length buf)) s])
      else buf)"
  by pat_completeness auto
termination
  by (relation "measure (\<lambda>(synth, b, spb, s, buf). nat (spb - s))") auto

declare emit_symbol.simps [simp del]

text \<open>
  The symbols in the order the two loop nests send them: \<^verbatim>\<open>pre_bits\<close> preamble symbols,
  bit \<^verbatim>\<open>b & 1\<close> for \<^verbatim>\<open>b = 0, 1, ...\<close>; then for every frame byte, for \<^verbatim>\<open>bitpos\<close> from 7
  down to 0, the bit \<^verbatim>\<open>(frame[i] >> bitpos) & 1\<close> sent \<^verbatim>\<open>REP\<close> times.
\<close>

definition preamble_symbols :: "int \<Rightarrow> bool list" where
  "preamble_symbols pre_bits = map (\<lambda>b. odd b) [0..<nat pre_bits]"

definition byte_symbols :: "u8 \<Rightarrow> bool list" where
  "byte_symbols v = concat (map (\<lambda>bitpos. replicate (nat REP) (bit v bitpos)) (rev [0..<8]))"

definition tx_symbols :: "int \<Rightarrow> u8 list \<Rightarrow> bool list" where
  "tx_symbols pre_bits frame = preamble_symbols pre_bits @ concat (map byte_symbols frame)"

definition modulate :: "(bool \<Rightarrow> int \<Rightarrow> int \<Rightarrow> 'a) \<Rightarrow> int \<Rightarrow> bool list \<Rightarrow> 'a list" where
  "modulate synth spb syms = foldl (\<lambda>buf b. emit_symbol synth b spb 0 buf) [] syms"

text \<open>
  Lines 178 to 190 and 234 to 284 of \<^verbatim>\<open>main\<close>: \<open>spb\<close> is
  \<^verbatim>\<open>lround(SAMPLE_RATE * BIT_DURATION)\<close> (662 for the program's constants) and \<open>pre_raw\<close>
  is \<^verbatim>\<open>lround(PREAMBLE_SECONDS / BIT_DURATION)\<close> (100), both computed in \<^verbatim>\<open>double\<close> and
  taken as given. The result pairs \<^verbatim>\<open>total_samples\<close>, the count handed to
  \<^verbatim>\<open>sf_write_float\<close>, with the filled buffer.
\<close>

datatype tx_error = EncryptFailed | TxAllocFailed | BitDurationTooSmall | OutputOpenFailed

definition tx_waveform ::
  "(bool \<Rightarrow> int \<Rightarrow> int \<Rightarrow> 'a) \<Rightarrow> int \<Rightarrow> int \<Rightarrow> u8 list \<Rightarrow> tx_error + (int \<times> 'a list)" where
  "tx_waveform synth spb pre_raw frame =
     (if spb < 40 then Inl BitDurationTooSmall
      else
        let pre_bits = (if pre_raw < 32 then 32 else pre_raw);
            data_bits = int (length frame) * 8;
            tx_bits = pre_bits + data_bits * REP;
            total_samples = tx_bits * spb
        in Inr (total_samples, modulate synth spb (tx_symbols pre_bits frame)))"

text \<open>
  The whole \<^verbatim>\<open>main\<close> of the sender from line 147 on, with what the environment decides:
  the AES-CTR encryption (\<open>None\<close> when \<^verbatim>\<open>encrypt_aes_ctr\<close> returns a negative length),
  whether the three \<^verbatim>\<open>malloc\<close> calls and \<^verbatim>\<open>sf_open\<close> succeed, and the bytes a fresh
  frame buffer holds. A cover file only changes the sample values, which \<open>synth\<close> stands
  for. The message is the bytes of \<^verbatim>\<open>argv[1]\<close> up to its terminating zero.
\<close>

record tx_env =
  encrypt :: "u8 list \<Rightarrow> u8 list option"
  cipher_alloc :: bool
  tx_frame_alloc :: bool
  frame_junk :: "nat \<Rightarrow> u8"
  out_open :: bool
  buf_alloc :: bool

definition sender ::
  "tx_env \<Rightarrow> (bool \<Rightarrow> int \<Rightarrow> int \<Rightarrow> 'a) \<Rightarrow> int \<Rightarrow> int \<Rightarrow> u8 list
     \<Rightarrow> tx_error + (u8 list \<times> int \<times> 'a list)" where
  "sender env synth spb pre_raw msg =
     (if \<not> cipher_alloc env then Inl TxAllocFailed
      else
        (case encrypt env msg of
           None \<Rightarrow> Inl EncryptFailed
         | Some cipher \<Rightarrow>
             if \<not> tx_frame_alloc env then Inl TxAllocFailed
             else
               (let frame = build_frame (frame_junk env) cipher in
                case tx_waveform synth spb pre_raw frame of
                  Inl e \<Rightarrow> Inl e
                | Inr (total_samples, wave) \<Rightarrow>
                    if \<not> out_open env then Inl OutputOpenFailed
                    else if \<not> buf_alloc env then Inl TxAllocFailed
                    else Inr (frame, total_samples, wave))))"

subsection \<open>Receiver: bit detector and byte decoder (\<^verbatim>\<open>receiver.c\<close>)\<close>

text \<open>
  After the front end the buffer \<^verbatim>\<open>x\<close> holds \<open>n\<close> samples. \<^verbatim>\<open>detect_bit_q\<close> reads
  \<^verbatim>\<open>x[start + 0 .. start + len - 1]\<close> and compares two energies in \<^verbatim>\<open>double\<close>:
  \<open>tone start len\<close> stands for the outcome \<^verbatim>\<open>p1 > p0\<close> on that window of the buffer.
  Reading outside \<^verbatim>\<open>x[0 .. n-1]\<close> is undefined in C; the model returns \<open>None\<close> there
  and every caller passes it on. With \<^verbatim>\<open>len <= 0\<close> nothing is read, both energies are 0
  and the bit is 0 before the XOR with \<^verbatim>\<open>invert\<close>.
\<close>

type_synonym detector = "int \<Rightarrow> int \<Rightarrow> bool"

definition detect_bit_q :: "int \<Rightarrow> detector \<Rightarrow> int \<Rightarrow> int \<Rightarrow> bool \<Rightarrow> bool option" where
  "detect_bit_q n tone start len invert =
     (if len \<le> 0 then Some (False \<noteq> invert)
      else if start < 0 \<or> n < start + len then None
      else Some (tone start len \<noteq> invert))"

text \<open>\<^verbatim>\<open>decode_coded_bit\<close>: the loop over \<^verbatim>\<open>r\<close> adds up the detected bits.\<close>

function coded_ones :: "int \<Rightarrow> detector \<Rightarrow> int \<Rightarrow> int \<Rightarrow> bool \<Rightarrow> int \<Rightarrow> int \<Rightarrow> int option" where
  "coded_ones n tone pos spb invert r ones =
     (if r < REP then
        (case detect_bit_q n tone (pos + r * spb) spb invert of
           None \<Rightarrow> None
         | Some b \<Rightarrow> coded_ones n tone pos spb invert (r + 1) (ones + (if b then 1 else 0)))
      else Some ones)"
  by pat_completeness auto
termination
  by (relation "measure (\<lambda>(n, tone, pos, spb, invert, r, ones). nat (REP - r))") auto

declare coded_ones.simps [simp del]

definition decode_coded_bit :: "int \<Rightarrow> detector \<Rightarrow> int \<Rightarrow> int \<Rightarrow> bool \<Rightarrow> bool option" where
  "decode_coded_bit n tone pos spb invert =
     map_option (\<lambda>ones. ones > REP div 2) (coded_ones n tone pos spb invert 0 0)"

text \<open>
  \<^verbatim>\<open>decode_byte\<close>: eight coded bits, \<^verbatim>\<open>v = (v<<1) | b\<close>, the cursor \<^verbatim>\<open>*pos\<close> moved by
  \<^verbatim>\<open>REP * spb\<close> after each. The result pairs the byte with the new cursor.
\<close>

function decode_byte_loop ::
  "int \<Rightarrow> detector \<Rightarrow> int \<Rightarrow> bool \<Rightarrow> int \<Rightarrow> u8 \<Rightarrow> int \<Rightarrow> (u8 \<times> int) option" where
  "decode_byte_loop n tone spb invert k v pos =
     (if k < 8 then
        (case decode_coded_bit n tone pos spb invert of
           None \<Rightarrow> None
         | Some b \<Rightarrow>
             decode_byte_loop n tone spb invert (k + 1)
               (push_bit 1 v OR (if b then 1 else 0)) (pos + REP * spb))
      else Some (v, pos))"
  by pat_completeness auto
termination
  by (relation "measure (\<lambda>(n, tone, spb, invert, k, v, pos). nat (8 - k))") auto

declare decode_byte_loop.simps [simp del]

definition decode_byte :: "int \<Rightarrow> detector \<Rightarrow> int \<Rightarrow> int \<Rightarrow> bool \<Rightarrow> (u8 \<times> int) option" where
  "decode_byte n tone pos spb invert = decode_byte_loop n tone spb invert 0 0 pos"

text \<open>
  \<^verbatim>\<open>main\<close> decodes runs of bytes through one cursor: four calls in the refinement, the
  loops for the header, the ciphertext and the CRC.
\<close>

fun decode_bytes ::
  "int \<Rightarrow> detector \<Rightarrow> int \<Rightarrow> bool \<Rightarrow> nat \<Rightarrow> int \<Rightarrow> (u8 list \<times> int) option" where
  "decode_bytes n tone spb invert 0 pos = Some ([], pos)"
| "decode_bytes n tone spb invert (Suc cnt) pos =
     (case decode_byte n tone pos spb invert of
        None \<Rightarrow> None
      | Some (v, pos') \<Rightarrow>
          (case decode_bytes n tone spb invert cnt pos' of
             None \<Rightarrow> None
           | Some (vs, pos'') \<Rightarrow> Some (v # vs, pos'')))"

subsection \<open>Receiver: preamble score and coarse search (lines 241 to 299)\<close>

text \<open>
  \<^verbatim>\<open>score_preamble\<close>: \<^verbatim>\<open>expected = (b & 1) ? 1 : 0\<close> is the parity of the bit index; the
  loop leaves at the first window with \<^verbatim>\<open>pos + spb >= n\<close>.
\<close>

function score_loop ::
  "int \<Rightarrow> detector \<Rightarrow> int \<Rightarrow> int \<Rightarrow> int \<Rightarrow> bool \<Rightarrow> int \<Rightarrow> int \<Rightarrow> int option" where
  "score_loop n tone off spb pre_bits invert b score =
     (if b < pre_bits then
        (let pos = off + b * spb in
         if pos + spb \<ge> n then Some score
         else
           (case detect_bit_q n tone pos spb invert of
              None \<Rightarrow> None
            | Some got \<Rightarrow>
                score_loop n tone off spb pre_bits invert (b + 1)
                  (if got = odd b then score + 1 else score)))
      else Some score)"
  by pat_completeness auto
termination
  by (relation "measure (\<lambda>(n, tone, off, spb, pre_bits, invert, b, score). nat (pre_bits - b))")
    auto

declare score_loop.simps [simp del]

definition score_preamble ::
  "int \<Rightarrow> detector \<Rightarrow> int \<Rightarrow> int \<Rightarrow> int \<Rightarrow> bool \<Rightarrow> int option" where
  "score_preamble n tone off spb pre_bits invert = score_loop n tone off spb pre_bits invert 0 0"

text \<open>
  The state of the coarse search: the three \<^verbatim>\<open>best_*\<close> variables, and \<open>scored\<close>, the
  calls of \<^verbatim>\<open>score_preamble\<close> made so far as (offset, polarity) in order; the program
  has no such log, it is there to state which offsets the scan evaluates.
\<close>

record sync =
  best_off :: int
  best_inv :: bool
  best_score :: int
  scored :: "(int \<times> bool) list"

text \<open>
  \<^verbatim>\<open>lround(SEARCH_SECONDS * (double)fs)\<close> is \<open>3 * fs\<close> exactly. \<^verbatim>\<open>spb / 6\<close> truncates;
  for a negative \<^verbatim>\<open>spb\<close> both the truncated and the floored quotient are below 1.
  \<^verbatim>\<open>(int)(0.93 * pre_bits)\<close> is computed in \<^verbatim>\<open>double\<close>; for \<open>pre_bits \<ge> 0\<close> it is the
  integer part of \<open>93 * pre_bits / 100\<close> (93 for the program's 100 preamble bits).
\<close>

definition search_max :: "int \<Rightarrow> int \<Rightarrow> int" where
  "search_max fs n = (let m = 3 * fs in if m > n then n else m)"

definition search_step :: "int \<Rightarrow> int" where
  "search_step spb = (let step = spb div 6 in if step < 1 then 1 else step)"

definition early_stop :: "int \<Rightarrow> int" where
  "early_stop pre_bits = 93 * pre_bits div 100"

function coarse_loop ::
  "int \<Rightarrow> detector \<Rightarrow> int \<Rightarrow> int \<Rightarrow> int \<Rightarrow> int \<Rightarrow> sync \<Rightarrow> sync option" where
  "coarse_loop n tone spb pre_bits smax off st =
     (if off + pre_bits * spb < smax then
        (case score_preamble n tone off spb pre_bits False of
           None \<Rightarrow> None
         | Some s0 \<Rightarrow>
             (let st = (if s0 > best_score st
                        then st\<lparr>best_score := s0, best_off := off, best_inv := False\<rparr>
                        else st)
              in case score_preamble n tone off spb pre_bits True of
                   None \<Rightarrow> None
                 | Some s1 \<Rightarrow>
                     (let st = (if s1 > best_score st
                                then st\<lparr>best_score := s1, best_off := off, best_inv := True\<rparr>
                                else st);
                          st = st\<lparr>scored := scored st @ [(off, False), (off, True)]\<rparr>
                      in if best_score st > early_stop pre_bits then Some st
                         else coarse_loop n tone spb pre_bits smax (off + search_step spb) st)))
      else Some st)"
  by pat_completeness auto
termination
  by (relation "measure (\<lambda>(n, tone, spb, pre_bits, smax, off, st).
                  nat (smax - pre_bits * spb - off))")
    (auto simp add: search_step_def Let_def)

declare coarse_loop.simps [simp del]

definition coarse_search :: "int \<Rightarrow> detector \<Rightarrow> int \<Rightarrow> int \<Rightarrow> int \<Rightarrow> sync option" where
  "coarse_search n tone spb pre_bits smax =
     coarse_loop n tone spb pre_bits smax 0
       \<lparr>best_off = - 1, best_inv = False, best_score = - 1, scored = []\<rparr>"

subsection \<open>Receiver: refinement on the magic (lines 307 to 341)\<close>

definition refine_step :: "int \<Rightarrow> int" where
  "refine_step spb = (let step2 = spb div 24 in if step2 < 1 then 1 else step2)"

text \<open>
  The inner loop \<^verbatim>\<open>for(inv_try=0; inv_try<=1; inv_try++)\<close> at one position \<open>p\<close>, over the
  polarities still to try. \<open>tried\<close> logs the speculative decodes made, as (position,
  polarity) in order. The result is the accepted pair, if any, with the log.
\<close>

fun refine_try ::
  "int \<Rightarrow> detector \<Rightarrow> int \<Rightarrow> int \<Rightarrow> bool list \<Rightarrow> (int \<times> bool) list
     \<Rightarrow> ((int \<times> bool) option \<times> (int \<times> bool) list) option" where
  "refine_try n tone spb p [] tried = Some (None, tried)"
| "refine_try n tone spb p (inv_try # rest) tried =
     (if p < 0 then refine_try n tone spb p rest tried
      else if p + 4 * REP * spb * 8 \<ge> n then refine_try n tone spb p rest tried
      else
        (case decode_bytes n tone spb inv_try 4 p of
           None \<Rightarrow> None
         | Some (m, tmp) \<Rightarrow>
             if m = MAGIC then Some (Some (p, inv_try), tried @ [(p, inv_try)])
             else refine_try n tone spb p rest (tried @ [(p, inv_try)])))"

function refine_loop ::
  "int \<Rightarrow> detector \<Rightarrow> int \<Rightarrow> int \<Rightarrow> int \<Rightarrow> (int \<times> bool) list
     \<Rightarrow> ((int \<times> bool) option \<times> (int \<times> bool) list) option" where
  "refine_loop n tone spb base delta tried =
     (if delta \<le> spb then
        (case refine_try n tone spb (base + delta) [False, True] tried of
           None \<Rightarrow> None
         | Some (Some found, tried') \<Rightarrow> Some (Some found, tried')
         | Some (None, tried') \<Rightarrow>
             refine_loop n tone spb base (delta + refine_step spb) tried')
      else Some (None, tried))"
  by pat_completeness auto
termination
  by (relation "measure (\<lambda>(n, tone, spb, base, delta, tried). nat (spb - delta + 1))")
    (auto simp add: refine_step_def Let_def)

declare refine_loop.simps [simp del]

definition refine ::
  "int \<Rightarrow> detector \<Rightarrow> int \<Rightarrow> int
     \<Rightarrow> ((int \<times> bool) option \<times> (int \<times> bool) list) option" where
  "refine n tone spb base = refine_loop n tone spb base (- spb) []"

subsection \<open>Receiver: frame decoding (lines 343 to 400) and the whole \<^verbatim>\<open>main\<close>\<close>

text \<open>
  The exits of \<^verbatim>\<open>main\<close>, named as the specification names them; \<open>MagicMismatch\<close> is
  the exit at line 350, \<open>AllocFailed\<close> a failed \<^verbatim>\<open>malloc\<close>, \<open>OutOfBounds\<close> a read
  outside the sample buffer.
\<close>

datatype rx_error =
  ConfigError | SyncNotFound | MagicNotFound | MagicMismatch | BadLen | AllocFailed
  | CrcMismatch | DecryptFailed | OutOfBounds

text \<open>
  What the environment decides: whether the two \<^verbatim>\<open>malloc\<close> calls succeed, and the
  AES-CTR decryption (\<open>None\<close> when \<^verbatim>\<open>decrypt_aes_ctr\<close> returns a negative length).
\<close>

record rx_env =
  frame_alloc :: bool
  plain_alloc :: bool
  decrypt :: "u8 list \<Rightarrow> u8 list option"

definition get_be32 :: "u8 list \<Rightarrow> u32" where
  "get_be32 b = push_bit 24 (ucast (b ! 0)) OR push_bit 16 (ucast (b ! 1))
                OR push_bit 8 (ucast (b ! 2)) OR ucast (b ! 3)"

text \<open>The result pairs the cursor \<^verbatim>\<open>pos\<close> at the exit with the outcome.\<close>

definition decode_frame ::
  "rx_env \<Rightarrow> int \<Rightarrow> detector \<Rightarrow> int \<Rightarrow> bool \<Rightarrow> int \<Rightarrow> int \<times> (rx_error + u8 list)" where
  "decode_frame env n tone spb invert pos =
     (case decode_bytes n tone spb invert 8 pos of
        None \<Rightarrow> (pos, Inl OutOfBounds)
      | Some (hdr, pos1) \<Rightarrow>
          if take 4 hdr \<noteq> MAGIC then (pos1, Inl MagicMismatch)
          else
            (let clen = get_be32 (drop 4 hdr) in
             if clen = 0 \<or> clen > 2000000 then (pos1, Inl BadLen)
             else if \<not> frame_alloc env then (pos1, Inl AllocFailed)
             else
               (case decode_bytes n tone spb invert (unat clen) pos1 of
                  None \<Rightarrow> (pos1, Inl OutOfBounds)
                | Some (body, pos2) \<Rightarrow>
                    (case decode_bytes n tone spb invert 4 pos2 of
                       None \<Rightarrow> (pos2, Inl OutOfBounds)
                     | Some (crc_bytes, pos3) \<Rightarrow>
                         (let crc_stored = get_be32 crc_bytes;
                              crc_calc = crc32_compute crc32_init (hdr @ body)
                          in if crc_calc \<noteq> crc_stored then (pos3, Inl CrcMismatch)
                             else if \<not> plain_alloc env then (pos3, Inl AllocFailed)
                             else
                               (case decrypt env body of
                                  None \<Rightarrow> (pos3, Inl DecryptFailed)
                                | Some plain \<Rightarrow> (pos3, Inr plain)))))))"

text \<open>
  \<^verbatim>\<open>main\<close> from line 271 on: \<open>spb\<close> is \<^verbatim>\<open>lround(fs * BIT_DURATION)\<close> and \<open>pre_raw\<close> is
  \<^verbatim>\<open>lround(PREAMBLE_SECONDS / BIT_DURATION)\<close>, taken as given. \<^verbatim>\<open>best_pos\<close> starts at
  \<open>-1\<close> and is only ever set to a position that passed \<^verbatim>\<open>p < 0\<close>, so \<^verbatim>\<open>best_pos < 0\<close>
  says that no candidate was accepted.
\<close>

definition receiver ::
  "rx_env \<Rightarrow> int \<Rightarrow> int \<Rightarrow> int \<Rightarrow> int \<Rightarrow> detector \<Rightarrow> rx_error + u8 list" where
  "receiver env n fs spb pre_raw tone =
     (if spb < 40 then Inl ConfigError
      else
        (let pre_bits = (if pre_raw < 32 then 32 else pre_raw) in
         case coarse_search n tone spb pre_bits (search_max fs n) of
           None \<Rightarrow> Inl OutOfBounds
         | Some st \<Rightarrow>
             if best_off st < 0 then Inl SyncNotFound
             else
               (let base = best_off st + pre_bits * spb in
                case refine n tone spb base of
                  None \<Rightarrow> Inl OutOfBounds
                | Some (None, tried) \<Rightarrow> Inl MagicNotFound
                | Some (Some (best_pos, invert), tried) \<Rightarrow>
                    snd (decode_frame env n tone spb invert best_pos))))"

text \<open>
  The repetition decode in the specification's words: a data bit at \<open>pos\<close> is 1 exactly
  when, among the \<open>REP\<close> consecutive symbols at \<open>pos + r * spb\<close>, the number detected as
  1 is greater than \<open>REP / 2\<close> (integer division).
\<close>

definition majority_bit :: "int \<Rightarrow> detector \<Rightarrow> int \<Rightarrow> int \<Rightarrow> bool \<Rightarrow> bool" where
  "majority_bit n tone pos spb invert =
     (int (length (filter (\<lambda>r. detect_bit_q n tone (pos + int r * spb) spb invert = Some True)
                     [0..<nat REP])) > REP div 2)"

subsection \<open>A noiseless line, for the examples\<close>

text \<open>
  The detector outcomes on a capture that carries the symbols \<open>syms\<close> from sample 0 on,
  each for \<open>spb\<close> samples, without noise: a window is detected as the symbol in which
  it starts, and as 0 where no symbol is sent.
\<close>

definition clean_line :: "bool list \<Rightarrow> int \<Rightarrow> detector" where
  "clean_line syms spb =
     (\<lambda>start len. let i = start div spb in 0 \<le> i \<and> nat i < length syms \<and> syms ! nat i)"

subsection \<open>Scan ranges, for stating what the two searches visit\<close>

text \<open>
  \<open>steps_from lo step hi\<close> lists \<open>lo, lo + step, lo + 2 * step, ...\<close> up to \<open>hi\<close>
  inclusive. \<open>take_until P xs\<close> is \<open>xs\<close> up to and including its first element that
  satisfies \<open>P\<close>, all of \<open>xs\<close> when there is none.
\<close>

definition steps_from :: "int \<Rightarrow> int \<Rightarrow> int \<Rightarrow> int list" where
  "steps_from lo step hi = map (\<lambda>k. lo + int k * step) [0..<nat ((hi - lo) div step + 1)]"

fun take_until :: "('a \<Rightarrow> bool) \<Rightarrow> 'a list \<Rightarrow> 'a list" where
  "take_until P [] = []"
| "take_until P (x # xs) = (if P x then [x] else x # take_until P xs)"

text \<open>
  The offsets of the coarse scan in the order the loop reaches them: from 0 in steps of
  \<^verbatim>\<open>step\<close> while \<^verbatim>\<open>off + pre_bits * spb < search_max\<close>. \<open>attains bound ... off\<close>: at
  offset \<open>off\<close> the preamble score of one of the two polarities is above \<open>bound\<close>.
  \<open>both_polarities\<close> pairs every offset with polarity 0 and then polarity 1.
\<close>

definition scan_offsets :: "int \<Rightarrow> int \<Rightarrow> int \<Rightarrow> int list" where
  "scan_offsets spb pre_bits smax = steps_from 0 (search_step spb) (smax - pre_bits * spb - 1)"

definition attains :: "int \<Rightarrow> int \<Rightarrow> detector \<Rightarrow> int \<Rightarrow> int \<Rightarrow> int \<Rightarrow> bool" where
  "attains bound n tone spb pre_bits off =
     ((case score_preamble n tone off spb pre_bits False of None \<Rightarrow> False | Some s \<Rightarrow> bound < s)
      \<or> (case score_preamble n tone off spb pre_bits True of None \<Rightarrow> False | Some s \<Rightarrow> bound < s))"

definition both_polarities :: "int list \<Rightarrow> (int \<times> bool) list" where
  "both_polarities offs = concat (map (\<lambda>off. [(off, False), (off, True)]) offs)"

text \<open>
  The candidates of the refinement in the order the loops reach them: the positions
  \<open>base + delta\<close> for \<open>delta\<close> from \<open>-spb\<close> to \<open>+spb\<close> in steps of \<^verbatim>\<open>step2\<close>, those kept
  whose speculative read of four bytes passes the two guards, each with polarity 0 and
  then polarity 1. \<open>magic_at\<close>: the four bytes decoded at a candidate are the magic.
\<close>

definition refine_candidates :: "int \<Rightarrow> int \<Rightarrow> int \<Rightarrow> (int \<times> bool) list" where
  "refine_candidates n spb base =
     both_polarities
       (filter (\<lambda>p. 0 \<le> p \<and> p + 4 * REP * spb * 8 < n)
          (map (\<lambda>delta. base + delta) (steps_from (- spb) (refine_step spb) spb)))"

definition magic_at :: "int \<Rightarrow> detector \<Rightarrow> int \<Rightarrow> int \<times> bool \<Rightarrow> bool" where
  "magic_at n tone spb = (\<lambda>(p, inv_try).
     map_option fst (decode_bytes n tone spb inv_try 4 p) = Some MAGIC)"

text \<open>A capture on which every detection comes out exchanged, 1 for 0 and 0 for 1.\<close>

definition exchanged :: "detector \<Rightarrow> detector" where
  "exchanged tone = (\<lambda>start len. \<not> tone start len)"

section \<open>Properties\<close>

subsection \<open>CRC-32\<close>

lemma init_step_xor:
  "crc32_init_step (c XOR e) = ref_feed_bit c (bit e 0) XOR drop_bit 1 e"
proof -
  have b: "((c XOR e) AND 1 \<noteq> 0) = (bit c 0 \<noteq> bit e 0)"
    by (simp add: and_one_eq mod2_eq_if bit_0 flip: even_xor_iff)
  show ?thesis
    unfolding crc32_init_step_def ref_feed_bit_def b poly_def
    by (simp add: ac_simps)
qed

lemma funpow_init_step:
  "(crc32_init_step ^^ n) (c XOR e)
     = foldl ref_feed_bit c (map (bit e) [0..<n]) XOR drop_bit n e"
proof (induction n arbitrary: c e)
  case 0
  show ?case by simp
next
  case (Suc n)
  have m: "map (bit e) [0..<Suc n] = bit e 0 # map (bit (drop_bit 1 e)) [0..<n]"
    by (simp add: upt_conv_Cons map_Suc_upt [symmetric] bit_drop_bit_eq del: upt_Suc)
  have "(crc32_init_step ^^ Suc n) (c XOR e)
          = (crc32_init_step ^^ n) (ref_feed_bit c (bit e 0) XOR drop_bit 1 e)"
    by (simp add: funpow_swap1 init_step_xor)
  also have "\<dots> = foldl ref_feed_bit (ref_feed_bit c (bit e 0))
                      (map (bit (drop_bit 1 e)) [0..<n]) XOR drop_bit n (drop_bit 1 e)"
    by (rule Suc.IH)
  finally show ?case
    by (simp only: m foldl_Cons drop_bit_drop_bit) simp
qed

lemma funpow_init_step_split:
  "(crc32_init_step ^^ n) x = (crc32_init_step ^^ n) (take_bit n x) XOR drop_bit n x"
proof -
  let ?lo = "take_bit n x" and ?hi = "push_bit n (drop_bit n x)"
  have x: "x = ?lo XOR ?hi"
    by (rule bit_eqI) (auto simp add: bit_simps)
  have hi: "map (bit ?hi) [0..<n] = map (bit (0::u32)) [0..<n]"
    by (simp add: bit_simps)
  have "(crc32_init_step ^^ n) (?lo XOR ?hi)
          = foldl ref_feed_bit ?lo (map (bit ?hi) [0..<n]) XOR drop_bit n ?hi"
    by (rule funpow_init_step)
  also have "foldl ref_feed_bit ?lo (map (bit ?hi) [0..<n]) = (crc32_init_step ^^ n) (?lo XOR 0)"
    unfolding hi funpow_init_step by simp
  also have "drop_bit n ?hi = drop_bit n x"
    by (rule bit_eqI) (auto simp add: bit_simps dest: bit_imp_le_length)
  finally show ?thesis
    using x by simp
qed

lemma crc32_init_nth:
  "crc32_init ! unat (x AND 0xFF) = (crc32_init_step ^^ 8) (take_bit 8 x)"
proof -
  have m: "x AND 0xFF = take_bit 8 x"
    using take_bit_eq_mask [of 8 x] by (simp add: mask_eq_exp_minus_1)
  have "take_bit 8 (unat x) < 2 ^ 8"
    by (rule take_bit_nat_less_exp)
  then have lt: "unat (take_bit 8 x) < 256"
    by (simp add: unsigned_take_bit_eq)
  show ?thesis
    unfolding m crc32_init_def using lt by (simp del: upt_Suc funpow.simps)
qed

lemma crc32_round_bitwise:
  "crc32_round crc32_init c d = ref_feed_byte c d"
proof -
  have d8: "drop_bit 8 (ucast d :: u32) = 0"
    by (rule bit_eqI) (auto simp add: bit_simps dest: bit_imp_le_length)
  have bits: "map (bit (ucast d :: u32)) [0..<8] = map (bit d) [0..<8]"
    by (simp add: bit_simps)
  have "crc32_round crc32_init c d
          = (crc32_init_step ^^ 8) (take_bit 8 (c XOR ucast d)) XOR drop_bit 8 (c XOR ucast d)"
    unfolding crc32_round_def crc32_init_nth by (simp add: d8)
  also have "\<dots> = (crc32_init_step ^^ 8) (c XOR ucast d)"
    by (rule funpow_init_step_split [symmetric])
  also have "\<dots> = foldl ref_feed_bit c (map (bit d) [0..<8])"
    unfolding funpow_init_step bits d8 by simp
  finally show ?thesis
    by (simp add: ref_feed_byte_def)
qed

lemma foldl_crc32_round:
  "foldl (crc32_round crc32_init) c data = foldl ref_feed_byte c data"
  by (induction data arbitrary: c) (simp_all add: crc32_round_bitwise)

text \<open>
  C7. The table-driven \<^verbatim>\<open>crc32_compute\<close>, run on the table \<^verbatim>\<open>crc32_init\<close> builds
  from the reversed polynomial \<open>0xEDB88320\<close>, returns for every byte sequence the
  bit-at-a-time reflected CRC-32 with initial value \<open>0xFFFFFFFF\<close> and final XOR
  \<open>0xFFFFFFFF\<close>.
\<close>

theorem crc32_compute_is_reference:
  "crc32_compute crc32_init data = crc32_reference data"
  by (simp add: crc32_compute_def crc32_reference_def foldl_crc32_round)

text \<open>The check value of CRC-32, the CRC of the ASCII digits 1 to 9.\<close>

lemma crc32_check_value:
  "crc32_compute crc32_init [0x31, 0x32, 0x33, 0x34, 0x35, 0x36, 0x37, 0x38, 0x39] = 0xCBF43926"
proof -
  have ref: "crc32_reference [0x31, 0x32, 0x33, 0x34, 0x35, 0x36, 0x37, 0x38, 0x39] = 0xCBF43926"
    by code_simp
  show ?thesis
    unfolding crc32_compute_def foldl_crc32_round crc32_reference_def [symmetric]
    by (rule ref)
qed

subsection \<open>Frame construction\<close>

lemma length_memcpy_aux:
  "length (foldl (\<lambda>f i. f[off + i := src ! i]) dst is) = length dst"
  by (induction "is" arbitrary: dst) simp_all

lemma nth_memcpy_aux:
  "j < length dst \<Longrightarrow>
   foldl (\<lambda>f i. f[off + i := src ! i]) dst [0..<k] ! j
     = (if off \<le> j \<and> j < off + k then src ! (j - off) else dst ! j)"
proof (induction k)
  case 0
  show ?case by auto
next
  case (Suc k)
  show ?case
  proof (cases "j = off + k")
    case True
    then show ?thesis
      using Suc.prems by (simp add: length_memcpy_aux)
  next
    case False
    then show ?thesis
      using Suc by (auto simp add: length_memcpy_aux)
  qed
qed

lemma length_memcpy: "length (memcpy dst off src) = length dst"
  by (simp add: memcpy_def length_memcpy_aux)

lemma nth_memcpy:
  "j < length dst \<Longrightarrow>
   memcpy dst off src ! j
     = (if off \<le> j \<and> j < off + length src then src ! (j - off) else dst ! j)"
  by (simp add: memcpy_def nth_memcpy_aux)

lemma int_byte_is_word_byte:
  "(word_of_int (drop_bit k (int m) AND 0xFF) :: u8) = ucast (drop_bit k (word_of_nat m :: u32))"
  if "k \<le> 24"
proof -
  have ff: "(0xFF :: int) = mask 8"
    by (simp add: mask_eq_exp_minus_1)
  show ?thesis
    unfolding ff using that
    by (intro bit_eqI) (auto simp add: bit_simps)
qed

lemma word_byte_mask:
  "(ucast (drop_bit k (w :: u32) AND 0xFF) :: u8) = ucast (drop_bit k w)"
proof -
  have ff: "(0xFF :: u32) = mask 8"
    by (simp add: mask_eq_exp_minus_1)
  show ?thesis
    unfolding ff
    by (intro bit_eqI) (auto simp add: bit_simps)
qed

lemma below_8_cases:
  "i < 8 \<Longrightarrow> i = 0 \<or> i = 1 \<or> i = 2 \<or> i = 3 \<or> i = 4 \<or> i = 5 \<or> i = 6 \<or> i = (7::nat)"
  by arith

lemma frame_header_and_body:
  fixes cipher :: "u8 list" and junk :: "nat \<Rightarrow> u8"
  defines "L \<equiv> length cipher"
  defines "F1 \<equiv> memcpy ((malloc_bytes junk (4 + 4 + L + 4))
                 [0 := 0x53, 1 := 0x54, 2 := 0x45, 3 := 0x47,
                  4 := ucast (drop_bit 24 (word_of_nat L :: u32)),
                  5 := ucast (drop_bit 16 (word_of_nat L :: u32)),
                  6 := ucast (drop_bit 8 (word_of_nat L :: u32)),
                  7 := ucast (word_of_nat L :: u32)]) 8 cipher"
  shows "take (4 + 4 + L) F1 = MAGIC @ BE32 (word_of_nat L) @ cipher"
proof (rule nth_equalityI)
  have len: "length F1 = 12 + L"
    by (simp add: F1_def length_memcpy malloc_bytes_def)
  show "length (take (4 + 4 + L) F1) = length (MAGIC @ BE32 (word_of_nat L) @ cipher)"
    by (simp add: len MAGIC_def BE32_def L_def)
  fix i
  assume "i < length (take (4 + 4 + L) F1)"
  then have i: "i < 8 + L"
    by (simp add: len)
  show "take (4 + 4 + L) F1 ! i = (MAGIC @ BE32 (word_of_nat L) @ cipher) ! i"
  proof (cases "i < 8")
    case True
    from below_8_cases [OF this] show ?thesis
      using i by (elim disjE)
        (simp_all add: F1_def nth_memcpy malloc_bytes_def MAGIC_def BE32_def)
  next
    case False
    have h8: "length (MAGIC @ BE32 (word_of_nat L)) = 8"
      by (simp add: MAGIC_def BE32_def)
    have "((MAGIC @ BE32 (word_of_nat L)) @ cipher) ! i = cipher ! (i - 8)"
      using False by (simp only: nth_append h8 if_False)
    then have "(MAGIC @ BE32 (word_of_nat L) @ cipher) ! i = cipher ! (i - 8)"
      by simp
    with False show ?thesis
      using i by (simp add: F1_def nth_memcpy malloc_bytes_def L_def)
  qed
qed

lemma frame_crc_tail:
  "length F = k + 4 \<Longrightarrow>
   F[k + 0 := a, k + 1 := b, k + 2 := c, k + 3 := d] = take k F @ [a, b, c, d]"
proof (rule nth_equalityI)
  assume len: "length F = k + 4"
  show "length (F[k + 0 := a, k + 1 := b, k + 2 := c, k + 3 := d]) = length (take k F @ [a, b, c, d])"
    by (simp add: len)
  fix i
  assume "i < length (F[k + 0 := a, k + 1 := b, k + 2 := c, k + 3 := d])"
  then have "i < k + 4"
    by (simp add: len)
  then consider "i < k" | "i = k" | "i = k + 1" | "i = k + 2" | "i = k + 3"
    by arith
  then show "F[k + 0 := a, k + 1 := b, k + 2 := c, k + 3 := d] ! i = (take k F @ [a, b, c, d]) ! i"
    by cases (simp_all add: len nth_append)
qed

lemma build_frame_wire:
  "build_frame junk cipher
     = MAGIC @ BE32 (word_of_nat (length cipher)) @ cipher
       @ BE32 (crc32_compute crc32_init
                 (MAGIC @ BE32 (word_of_nat (length cipher)) @ cipher))"
proof -
  let ?L = "length cipher"
  let ?F1 = "memcpy ((malloc_bytes junk (4 + 4 + ?L + 4))
                 [0 := 0x53, 1 := 0x54, 2 := 0x45, 3 := 0x47,
                  4 := ucast (drop_bit 24 (word_of_nat ?L :: u32)),
                  5 := ucast (drop_bit 16 (word_of_nat ?L :: u32)),
                  6 := ucast (drop_bit 8 (word_of_nat ?L :: u32)),
                  7 := ucast (word_of_nat ?L :: u32)]) 8 cipher"
  have b0: "(word_of_int (int ?L AND 0xFF) :: u8) = ucast (word_of_nat ?L :: u32)"
    using int_byte_is_word_byte [of 0 ?L] by simp
  have c0: "(ucast (w AND 0xFF) :: u8) = ucast w" for w :: u32
    using word_byte_mask [of 0 w] by simp
  have len: "length ?F1 = (4 + 4 + ?L) + 4"
    by (simp add: length_memcpy malloc_bytes_def)
  have "build_frame junk cipher
          = (let crc = crc32_compute crc32_init (take (4 + 4 + ?L) ?F1)
             in take (4 + 4 + ?L) ?F1 @ BE32 crc)"
    unfolding build_frame_def Let_def
    by (simp only: nat_int int_byte_is_word_byte b0 word_byte_mask c0
        frame_crc_tail [OF len] BE32_def)
  then show ?thesis
    by (simp only: frame_header_and_body Let_def append_assoc)
qed

lemma unat_byte_of_word:
  "unat (ucast (drop_bit k (w :: u32)) :: u8) = (unat w div 2 ^ k) mod 256"
proof -
  have "unat w < 2 ^ 32"
    using unsigned_less [of w, where ?'a = nat] by simp
  then have "take_bit 32 (unat w) = unat w"
    by (rule take_bit_nat_eq_self)
  then have "unat (ucast (drop_bit k w) :: u8) = take_bit 8 (drop_bit k (unat w))"
    by (simp add: unsigned_ucast_eq unsigned_drop_bit_eq)
  then show ?thesis
    by (simp add: take_bit_eq_mod drop_bit_eq_div)
qed

lemma be32_value_BE32: "be32_value (BE32 w) = unat w"
proof -
  define n where "n = unat w"
  have lt: "n < 2 ^ 32"
    unfolding n_def using unsigned_less [of w, where ?'a = nat] by simp
  have b0: "unat (ucast w :: u8) = n mod 256"
    using unat_byte_of_word [of 0 w] by (simp add: n_def)
  have d1: "n div 65536 = n div 256 div 256" and d2: "n div 16777216 = n div 256 div 256 div 256"
    by (simp_all add: div_mult2_eq [symmetric])
  have top: "n div 256 div 256 div 256 mod 256 = n div 256 div 256 div 256"
    using lt by (simp add: div_mult2_eq [symmetric])
  have "be32_value (BE32 w)
          = ((n div 256 div 256 div 256 * 256 + n div 256 div 256 mod 256) * 256
               + n div 256 mod 256) * 256 + n mod 256"
    unfolding be32_value_def BE32_def
    by (simp only: foldl_Cons foldl_Nil unat_byte_of_word b0 n_def [symmetric])
       (simp add: d1 d2 top)
  also have "\<dots> = n"
    by (simp only: div_mult_mod_eq)
  finally show ?thesis
    by (simp add: n_def)
qed

text \<open>
  C5. For every ciphertext of length \<open>L\<close> (an \<^verbatim>\<open>int\<close>, so below \<open>2^31\<close>) the frame the
  sender builds is \<open>'S' 'T' 'E' 'G'\<close>, then \<open>L\<close> as four big-endian bytes, then the
  ciphertext, then the four big-endian bytes of the CRC-32 of those \<open>8 + L\<close> bytes, the
  CRC-32 being the bit-at-a-time reference \<open>crc32_reference\<close> and not the table code the
  sender runs; the four length bytes read back as \<open>L\<close>; and for \<open>L = 2\<close> the frame is
  \<open>53 54 45 47 00 00 00 02 C[0] C[1]\<close> followed by the four CRC bytes of these ten.
\<close>

theorem frame_wire_format:
  assumes "length cipher < 2 ^ 31"
  shows "build_frame junk cipher
           = MAGIC @ BE32 (word_of_nat (length cipher)) @ cipher
             @ BE32 (crc32_reference
                       (MAGIC @ BE32 (word_of_nat (length cipher)) @ cipher))
         \<and> MAGIC = [0x53, 0x54, 0x45, 0x47]
         \<and> be32_value (BE32 (word_of_nat (length cipher))) = length cipher
         \<and> (\<forall>c0 c1. cipher = [c0, c1] \<longrightarrow>
               build_frame junk cipher
                 = [0x53, 0x54, 0x45, 0x47, 0, 0, 0, 2, c0, c1]
                   @ BE32 (crc32_reference [0x53, 0x54, 0x45, 0x47, 0, 0, 0, 2, c0, c1]))"
proof -
  have ref: "crc32_compute crc32_init data = crc32_reference data" for data
    by (simp add: crc32_compute_def crc32_reference_def foldl_crc32_round)
  have wire: "build_frame junk c
                = MAGIC @ BE32 (word_of_nat (length c)) @ c
                  @ BE32 (crc32_reference (MAGIC @ BE32 (word_of_nat (length c)) @ c))" for c
    by (simp only: build_frame_wire ref)
  have "take_bit 32 (length cipher) = length cipher"
    using assms by (simp add: take_bit_nat_eq_self)
  then have v: "be32_value (BE32 (word_of_nat (length cipher))) = length cipher"
    by (simp add: be32_value_BE32 unsigned_of_nat)
  have two: "build_frame junk [c0, c1]
               = [0x53, 0x54, 0x45, 0x47, 0, 0, 0, 2, c0, c1]
                 @ BE32 (crc32_reference [0x53, 0x54, 0x45, 0x47, 0, 0, 0, 2, c0, c1])" for c0 c1
    unfolding wire by (simp add: MAGIC_def BE32_def)
  show ?thesis
    using v two wire by (auto simp add: MAGIC_def)
qed

text \<open>
  Two frames in full: for the ciphertext \<open>AB CD\<close> the trailer is \<open>D5 64 CD 78\<close>, and for
  \<open>35 F0\<close>, which AES-256-CTR with the program's key and IV makes of \<open>"hi"\<close>, it is
  \<open>62 CE 26 FD\<close>, whatever the fresh buffer held.
\<close>

theorem frame_wire_format_witness:
  "length [0xAB, 0xCD :: u8] < 2 ^ 31
   \<and> build_frame (\<lambda>_. 0) [0xAB, 0xCD]
       = [0x53, 0x54, 0x45, 0x47, 0, 0, 0, 2, 0xAB, 0xCD, 0xD5, 0x64, 0xCD, 0x78]
   \<and> build_frame (\<lambda>_. 0xFF) [0x35, 0xF0]
       = [0x53, 0x54, 0x45, 0x47, 0, 0, 0, 2, 0x35, 0xF0, 0x62, 0xCE, 0x26, 0xFD]
   \<and> be32_value [0, 0, 0, 2] = 2"
proof -
  have a: "BE32 (crc32_reference [0x53, 0x54, 0x45, 0x47, 0, 0, 0, 2, 0xAB, 0xCD])
             = [0xD5, 0x64, 0xCD, 0x78]"
    and b: "BE32 (crc32_reference [0x53, 0x54, 0x45, 0x47, 0, 0, 0, 2, 0x35, 0xF0])
             = [0x62, 0xCE, 0x26, 0xFD]"
    by code_simp+
  have v: "be32_value [0, 0, 0, 2] = 2"
    by (simp add: be32_value_def)
  have len: "length [0xAB, 0xCD :: u8] < 2 ^ 31" "length [0x35, 0xF0 :: u8] < 2 ^ 31"
    by simp_all
  have "build_frame (\<lambda>_. 0) [0xAB, 0xCD]
          = [0x53, 0x54, 0x45, 0x47, 0, 0, 0, 2, 0xAB, 0xCD]
            @ BE32 (crc32_reference [0x53, 0x54, 0x45, 0x47, 0, 0, 0, 2, 0xAB, 0xCD])"
    using frame_wire_format [OF len(1), of "\<lambda>_. 0"] by blast
  then have f1: "build_frame (\<lambda>_. 0) [0xAB, 0xCD]
          = [0x53, 0x54, 0x45, 0x47, 0, 0, 0, 2, 0xAB, 0xCD, 0xD5, 0x64, 0xCD, 0x78]"
    unfolding a by simp
  have "build_frame (\<lambda>_. 0xFF) [0x35, 0xF0]
          = [0x53, 0x54, 0x45, 0x47, 0, 0, 0, 2, 0x35, 0xF0]
            @ BE32 (crc32_reference [0x53, 0x54, 0x45, 0x47, 0, 0, 0, 2, 0x35, 0xF0])"
    using frame_wire_format [OF len(2), of "\<lambda>_. 0xFF"] by blast
  then have f2: "build_frame (\<lambda>_. 0xFF) [0x35, 0xF0]
          = [0x53, 0x54, 0x45, 0x47, 0, 0, 0, 2, 0x35, 0xF0, 0x62, 0xCE, 0x26, 0xFD]"
    unfolding b by simp
  show ?thesis
    using len(1) f1 f2 v by blast
qed

subsection \<open>Modulator\<close>

lemma length_emit_symbol:
  "s \<le> spb \<Longrightarrow> length (emit_symbol synth b spb s buf) = length buf + nat (spb - s)"
proof (induction synth b spb s buf rule: emit_symbol.induct)
  case (1 synth b spb s buf)
  show ?case
  proof (cases "s < spb")
    case True
    then show ?thesis
      using "1.IH" by (subst emit_symbol.simps) (simp add: nat_diff_distrib')
  next
    case False
    then show ?thesis
      using "1.prems" by (subst emit_symbol.simps) simp
  qed
qed

lemma length_modulate_from:
  "0 \<le> spb \<Longrightarrow>
   length (foldl (\<lambda>buf b. emit_symbol synth b spb 0 buf) buf syms)
     = length buf + length syms * nat spb"
  by (induction syms arbitrary: buf) (simp_all add: length_emit_symbol algebra_simps)

lemma length_byte_symbols: "length (byte_symbols v) = 8 * nat REP"
  by (simp add: byte_symbols_def length_concat comp_def sum_list_triv del: upt_Suc)

lemma length_tx_symbols:
  "length (tx_symbols pre_bits frame) = nat pre_bits + 8 * nat REP * length frame"
  by (simp add: tx_symbols_def preamble_symbols_def length_concat comp_def
      length_byte_symbols sum_list_triv)

text \<open>
  C6. With \<open>spb \<ge> 40\<close> (anything smaller leaves \<^verbatim>\<open>main\<close> before the modulator) and
  \<open>pre_bits\<close> the clamped preamble length, the sender emits exactly
  \<open>pre_bits + 8 * REP * frame_bytes\<close> symbols, every symbol adds exactly \<open>spb\<close> samples
  to the buffer, and the waveform written has exactly
  \<open>(pre_bits + 8 * REP * frame_bytes) * spb\<close> samples, the \<^verbatim>\<open>total_samples\<close> the program
  computes.
\<close>

theorem modulator_output_length:
  assumes "40 \<le> spb" and "pre_bits = (if pre_raw < 32 then 32 else pre_raw)"
  shows "int (length (tx_symbols pre_bits frame)) = pre_bits + 8 * REP * int (length frame)
         \<and> (\<forall>b buf. length (emit_symbol synth b spb 0 buf) = length buf + nat spb)
         \<and> (\<exists>wave. tx_waveform synth spb pre_raw frame
                        = Inr ((pre_bits + 8 * REP * int (length frame)) * spb, wave)
                \<and> wave = modulate synth spb (tx_symbols pre_bits frame)
                \<and> int (length wave) = (pre_bits + 8 * REP * int (length frame)) * spb)"
proof -
  have pre: "0 \<le> pre_bits" and spb: "0 \<le> spb"
    using assms by (simp_all split: if_splits)
  have syms: "int (length (tx_symbols pre_bits frame)) = pre_bits + 8 * REP * int (length frame)"
    using pre by (simp add: length_tx_symbols REP_def)
  have sym: "length (emit_symbol synth b spb 0 buf) = length buf + nat spb" for b buf
    using spb by (simp add: length_emit_symbol)
  have "int (length (modulate synth spb (tx_symbols pre_bits frame)))
          = int (length (tx_symbols pre_bits frame)) * spb"
    using spb by (simp add: modulate_def length_modulate_from)
  then have wave: "int (length (modulate synth spb (tx_symbols pre_bits frame)))
          = (pre_bits + 8 * REP * int (length frame)) * spb"
    by (simp only: syms)
  have "tx_waveform synth spb pre_raw frame
          = Inr ((pre_bits + 8 * REP * int (length frame)) * spb,
                 modulate synth spb (tx_symbols pre_bits frame))"
    using assms by (simp add: tx_waveform_def Let_def algebra_simps)
  with syms sym wave show ?thesis
    by blast
qed

theorem modulator_output_length_witness:
  "(40::int) \<le> 40
   \<and> length (tx_symbols 100 [0x53]) = 124
   \<and> length (emit_symbol (\<lambda>b si s. b) True 40 0 []) = 40
   \<and> (case tx_waveform (\<lambda>b si s. b) 40 100 [0x53] of
         Inl e \<Rightarrow> False
       | Inr (total_samples, wave) \<Rightarrow> total_samples = 4960 \<and> length wave = 4960)"
  using modulator_output_length [of 40 100 100 "[0x53]" "\<lambda>b si s. b"]
  by (auto simp add: REP_def)

text \<open>The whole sender when nothing in its environment fails.\<close>

lemma sender_success:
  assumes "cipher_alloc env" "encrypt env msg = Some cipher" "tx_frame_alloc env" "40 \<le> spb"
    "out_open env" "buf_alloc env"
  shows "sender env synth spb pre_raw msg
           = Inr (build_frame (frame_junk env) cipher,
                  ((if pre_raw < 32 then 32 else pre_raw)
                     + int (length (build_frame (frame_junk env) cipher)) * 8 * REP) * spb,
                  modulate synth spb
                    (tx_symbols (if pre_raw < 32 then 32 else pre_raw)
                       (build_frame (frame_junk env) cipher)))"
  using assms by (simp add: sender_def tx_waveform_def Let_def)

subsection \<open>Repetition and byte decoding\<close>

lemma detect_in_bounds:
  "0 < len \<Longrightarrow> 0 \<le> start \<Longrightarrow> start + len \<le> n \<Longrightarrow>
   detect_bit_q n tone start len invert = Some (tone start len \<noteq> invert)"
  by (simp add: detect_bit_q_def)

lemma coded_ones_in_bounds:
  assumes "0 < spb" "0 \<le> pos" "pos + REP * spb \<le> n"
  shows "coded_ones n tone pos spb invert 0 0
           = Some ((if tone pos spb \<noteq> invert then 1 else 0)
                 + (if tone (pos + spb) spb \<noteq> invert then 1 else 0)
                 + (if tone (pos + 2 * spb) spb \<noteq> invert then 1 else 0))"
proof -
  have d0: "detect_bit_q n tone pos spb invert = Some (tone pos spb \<noteq> invert)"
    and d1: "detect_bit_q n tone (pos + spb) spb invert = Some (tone (pos + spb) spb \<noteq> invert)"
    and d2: "detect_bit_q n tone (pos + 2 * spb) spb invert
               = Some (tone (pos + 2 * spb) spb \<noteq> invert)"
    using assms by (simp_all add: detect_in_bounds REP_def)
  have "coded_ones n tone pos spb invert 3 k = Some k" for k
    by (subst coded_ones.simps) (simp add: REP_def)
  then have "coded_ones n tone pos spb invert 2 k
               = Some (k + (if tone (pos + 2 * spb) spb \<noteq> invert then 1 else 0))" for k
    by (subst coded_ones.simps) (simp add: REP_def d2)
  then have "coded_ones n tone pos spb invert 1 k
               = Some (k + (if tone (pos + spb) spb \<noteq> invert then 1 else 0)
                         + (if tone (pos + 2 * spb) spb \<noteq> invert then 1 else 0))" for k
    by (subst coded_ones.simps) (simp add: REP_def d1)
  then show ?thesis
    by (subst coded_ones.simps) (simp add: REP_def d0)
qed


lemma decode_coded_bit_majority:
  assumes "0 < spb" "0 \<le> pos" "pos + REP * spb \<le> n"
  shows "decode_coded_bit n tone pos spb invert = Some (majority_bit n tone pos spb invert)"
proof -
  have d0: "detect_bit_q n tone pos spb invert = Some (tone pos spb \<noteq> invert)"
    and d1: "detect_bit_q n tone (pos + spb) spb invert = Some (tone (pos + spb) spb \<noteq> invert)"
    and d2: "detect_bit_q n tone (pos + 2 * spb) spb invert
               = Some (tone (pos + 2 * spb) spb \<noteq> invert)"
    using assms by (simp_all add: detect_in_bounds REP_def)
  have u: "[0..<nat REP] = [0, 1, 2]"
    by (simp add: REP_def upt_rec)
  show ?thesis
    unfolding decode_coded_bit_def coded_ones_in_bounds [OF assms] majority_bit_def u
    by (simp add: d0 d1 d2 REP_def)
qed

lemma byte_bits:
  fixes b0 b1 b2 b3 b4 b5 b6 b7 :: bool
  defines "sh \<equiv> \<lambda>(v :: u8) b. push_bit 1 v OR (if b then 1 else 0)"
  defines "v \<equiv> sh (sh (sh (sh (sh (sh (sh (sh 0 b0) b1) b2) b3) b4) b5) b6) b7"
  shows "bit v 7 = b0" "bit v 6 = b1" "bit v 5 = b2" "bit v 4 = b3"
    "bit v 3 = b4" "bit v 2 = b5" "bit v 1 = b6" "bit v 0 = b7"
  unfolding v_def sh_def
  by (simp_all add: bit_simps if_distrib [of "\<lambda>w. bit w _"] cong: if_cong)


lemma decode_byte_in_bounds:
  assumes "0 < spb" "0 \<le> pos" "pos + 8 * REP * spb \<le> n"
  shows "\<exists>v. decode_byte n tone pos spb invert = Some (v, pos + 8 * REP * spb)
             \<and> (\<forall>k<8. bit v (7 - k)
                       = majority_bit n tone (pos + int k * (REP * spb)) spb invert)"
proof -
  define M where "M p = majority_bit n tone p spb invert" for p
  define sh where "sh = (\<lambda>(v :: u8) b. push_bit 1 v OR (if b then 1 else 0))"
  define q where "q j = pos + j * (REP * spb)" for j :: int
  have
    q0: "q 0 + 3 * spb = q 1"
    and q1: "q 1 + 3 * spb = q 2"
    and q2: "q 2 + 3 * spb = q 3"
    and q3: "q 3 + 3 * spb = q 4"
    and q4: "q 4 + 3 * spb = q 5"
    and q5: "q 5 + 3 * spb = q 6"
    and q6: "q 6 + 3 * spb = q 7"
    and q7: "q 7 + 3 * spb = q 8"
    by (simp_all add: q_def REP_def)
  have
    c0: "decode_coded_bit n tone (q 0) spb invert = Some (M (q 0))"
    and c1: "decode_coded_bit n tone (q 1) spb invert = Some (M (q 1))"
    and c2: "decode_coded_bit n tone (q 2) spb invert = Some (M (q 2))"
    and c3: "decode_coded_bit n tone (q 3) spb invert = Some (M (q 3))"
    and c4: "decode_coded_bit n tone (q 4) spb invert = Some (M (q 4))"
    and c5: "decode_coded_bit n tone (q 5) spb invert = Some (M (q 5))"
    and c6: "decode_coded_bit n tone (q 6) spb invert = Some (M (q 6))"
    and c7: "decode_coded_bit n tone (q 7) spb invert = Some (M (q 7))"
    unfolding M_def q_def using assms by (simp_all add: decode_coded_bit_majority REP_def)
  have step: "decode_byte_loop n tone spb invert k v p
                = decode_byte_loop n tone spb invert (k + 1) (sh v b) (p + 3 * spb)"
    if "k < 8" "decode_coded_bit n tone p spb invert = Some b" for k v p b
    by (subst decode_byte_loop.simps) (simp add: that sh_def REP_def)
  have s8: "decode_byte_loop n tone spb invert 8 v p = Some (v, p)" for v p
    by (subst decode_byte_loop.simps) simp
  have s7: "decode_byte_loop n tone spb invert 7 v (q 7) = Some (sh v (M (q 7)), q 8)" for v
    by (simp add: step [OF _ c7] q7 s8)
  have s6: "decode_byte_loop n tone spb invert 6 v (q 6) = Some (sh (sh v (M (q 6))) (M (q 7)), q 8)" for v
    by (simp add: step [OF _ c6] q6 s7)
  have s5: "decode_byte_loop n tone spb invert 5 v (q 5) = Some (sh (sh (sh v (M (q 5))) (M (q 6))) (M (q 7)), q 8)" for v
    by (simp add: step [OF _ c5] q5 s6)
  have s4: "decode_byte_loop n tone spb invert 4 v (q 4) = Some (sh (sh (sh (sh v (M (q 4))) (M (q 5))) (M (q 6))) (M (q 7)), q 8)" for v
    by (simp add: step [OF _ c4] q4 s5)
  have s3: "decode_byte_loop n tone spb invert 3 v (q 3) = Some (sh (sh (sh (sh (sh v (M (q 3))) (M (q 4))) (M (q 5))) (M (q 6))) (M (q 7)), q 8)" for v
    by (simp add: step [OF _ c3] q3 s4)
  have s2: "decode_byte_loop n tone spb invert 2 v (q 2) = Some (sh (sh (sh (sh (sh (sh v (M (q 2))) (M (q 3))) (M (q 4))) (M (q 5))) (M (q 6))) (M (q 7)), q 8)" for v
    by (simp add: step [OF _ c2] q2 s3)
  have s1: "decode_byte_loop n tone spb invert 1 v (q 1) = Some (sh (sh (sh (sh (sh (sh (sh v (M (q 1))) (M (q 2))) (M (q 3))) (M (q 4))) (M (q 5))) (M (q 6))) (M (q 7)), q 8)" for v
    by (simp add: step [OF _ c1] q1 s2)
  have s0: "decode_byte_loop n tone spb invert 0 v (q 0) = Some (sh (sh (sh (sh (sh (sh (sh (sh v (M (q 0))) (M (q 1))) (M (q 2))) (M (q 3))) (M (q 4))) (M (q 5))) (M (q 6))) (M (q 7)), q 8)" for v
    by (simp add: step [OF _ c0] q0 s1)
  define v where "v = sh (sh (sh (sh (sh (sh (sh (sh 0 (M (q 0))) (M (q 1))) (M (q 2)))
                (M (q 3))) (M (q 4))) (M (q 5))) (M (q 6))) (M (q 7))"
  have "decode_byte n tone pos spb invert = Some (v, q 8)"
    using s0 [of 0] by (simp add: decode_byte_def v_def q_def)
  then have dec: "decode_byte n tone pos spb invert = Some (v, pos + 8 * REP * spb)"
    by (simp add: q_def)
  have bits: "bit v (7 - k) = M (q (int k))" if "k < 8" for k
  proof -
    from below_8_cases [OF that] show ?thesis
      unfolding v_def sh_def
      by (elim disjE) (simp_all add: byte_bits)
  qed
  show ?thesis
    using dec bits unfolding M_def q_def by blast
qed

text \<open>
  C8. Wherever the \<open>8 * REP\<close> symbol windows of a byte lie inside the buffer
  (\<open>spb\<close> positive), for every detector outcome: the coded bit at a position is 1 exactly
  when more than \<open>REP / 2\<close> of its \<open>REP\<close> symbols are detected as 1; \<^verbatim>\<open>decode_byte\<close>
  returns the byte whose bit \<open>7 - k\<close> is the \<open>k\<close>-th coded bit (most significant first),
  and leaves the cursor exactly \<open>8 * REP * spb\<close> samples further.
\<close>

theorem repetition_and_byte_decode:
  assumes "0 < spb" "0 \<le> pos" "pos + 8 * REP * spb \<le> n"
  shows "decode_coded_bit n tone pos spb invert = Some (majority_bit n tone pos spb invert)
         \<and> (\<exists>v. decode_byte n tone pos spb invert = Some (v, pos + 8 * REP * spb)
                \<and> (\<forall>k<8. bit v (7 - k)
                       = majority_bit n tone (pos + int k * (REP * spb)) spb invert))"
proof -
  have "pos + REP * spb \<le> n"
    using assms by (simp add: REP_def)
  with assms show ?thesis
    by (simp add: decode_coded_bit_majority decode_byte_in_bounds)
qed

theorem repetition_and_byte_decode_witness:
  "(0::int) < 1 \<and> (0::int) \<le> 0 \<and> 0 + 8 * REP * 1 \<le> 24
   \<and> majority_bit 24 (\<lambda>s l. s = 3 \<or> s = 5 \<or> s = 7) 3 1 False
   \<and> \<not> majority_bit 24 (\<lambda>s l. s = 3 \<or> s = 5 \<or> s = 7) 6 1 False
   \<and> decode_coded_bit 24 (\<lambda>s l. s = 3 \<or> s = 5 \<or> s = 7) 0 1 False
       = Some (majority_bit 24 (\<lambda>s l. s = 3 \<or> s = 5 \<or> s = 7) 0 1 False)
   \<and> decode_byte 24 (\<lambda>s l. s = 3 \<or> s = 5 \<or> s = 7) 0 1 False = Some (0x40, 24)"
proof -
  let ?t = "\<lambda>(s::int) (l::int). s = 3 \<or> s = 5 \<or> s = 7"
  have m1: "majority_bit 24 ?t 3 1 False" and m2: "\<not> majority_bit 24 ?t 6 1 False"
    by code_simp+
  have v: "decode_byte 24 ?t 0 1 False = Some (0x40, 24)"
    by code_simp
  show ?thesis
    using repetition_and_byte_decode [of 1 0 24 ?t False] m1 m2 v
    by (simp add: REP_def)
qed

subsection \<open>Runs of bytes and the frame decoder\<close>

lemma decode_bytes_in_bounds:
  assumes "0 < spb"
  shows "0 \<le> pos \<Longrightarrow> pos + int cnt * (8 * REP * spb) \<le> n \<Longrightarrow>
         \<exists>vs. decode_bytes n tone spb invert cnt pos = Some (vs, pos + int cnt * (8 * REP * spb))
              \<and> length vs = cnt"
proof (induction cnt arbitrary: pos)
  case 0
  show ?case by simp
next
  case (Suc cnt)
  define W where "W = 8 * REP * spb"
  have W: "0 < W"
    using assms by (simp add: W_def REP_def)
  have rest: "0 \<le> int cnt * W"
    using W by simp
  have all: "pos + W + int cnt * W \<le> n"
    using Suc.prems(2) by (simp add: W_def algebra_simps)
  then have one: "pos + W \<le> n"
    using rest by linarith
  obtain v where v: "decode_byte n tone pos spb invert = Some (v, pos + W)"
    using decode_byte_in_bounds assms Suc.prems(1) one unfolding W_def by blast
  have "0 \<le> pos + W"
    using Suc.prems(1) W by linarith
  from Suc.IH [OF this] all
  obtain vs where vs: "decode_bytes n tone spb invert cnt (pos + W)
                         = Some (vs, pos + W + int cnt * W)" "length vs = cnt"
    unfolding W_def by blast
  have "pos + W + int cnt * W = pos + int (Suc cnt) * W"
    by (simp add: algebra_simps)
  with v vs show ?case
    unfolding W_def by simp
qed

lemma BE32_get_be32: "BE32 (get_be32 [a, b, c, d]) = [a, b, c, d]"
  unfolding BE32_def get_be32_def
  by (simp, intro conjI; intro bit_eqI) (auto simp add: bit_simps dest: bit_imp_le_length)

lemma get_be32_value:
  assumes "length bs = 4"
  shows "unat (get_be32 bs) = be32_value bs"
proof -
  obtain a b c d where bs: "bs = [a, b, c, d]"
    using assms by (auto simp add: length_Suc_conv eval_nat_numeral)
  have "be32_value (BE32 (get_be32 bs)) = unat (get_be32 bs)"
    by (rule be32_value_BE32)
  then show ?thesis
    by (simp only: bs BE32_get_be32)
qed

text \<open>
  C9. Once the eight header bytes are decoded (their windows lie in the buffer) and start
  with the magic: the length field is the big-endian value of bytes 4 to 7; if it is 0 or
  above 2,000,000, \<^verbatim>\<open>main\<close> leaves with \<open>BadLen\<close>, the cursor just behind the header, so
  no ciphertext byte was decoded, and the outcome carries no plaintext. If it is between
  1 and 2,000,000 the outcome is never \<open>BadLen\<close>, and when the frame buffer is allocated
  and the remaining windows lie in the buffer, the cursor at the exit is behind the
  \<open>LEN\<close> ciphertext bytes and the four CRC bytes.
\<close>

theorem badlen_rejection:
  assumes "0 < spb" "0 \<le> pos" "pos + 8 * (8 * REP * spb) \<le> n"
  shows "\<exists>hdr. decode_bytes n tone spb invert 8 pos = Some (hdr, pos + 8 * (8 * REP * spb))
           \<and> unat (get_be32 (drop 4 hdr)) = be32_value (drop 4 hdr)
           \<and> (take 4 hdr = MAGIC \<longrightarrow>
                (get_be32 (drop 4 hdr) = 0 \<or> get_be32 (drop 4 hdr) > 2000000 \<longrightarrow>
                   decode_frame env n tone spb invert pos
                     = (pos + 8 * (8 * REP * spb), Inl BadLen))
              \<and> (0 < get_be32 (drop 4 hdr) \<and> get_be32 (drop 4 hdr) \<le> 2000000 \<longrightarrow>
                   snd (decode_frame env n tone spb invert pos) \<noteq> Inl BadLen
                   \<and> (frame_alloc env
                        \<and> pos + (8 + int (unat (get_be32 (drop 4 hdr))) + 4) * (8 * REP * spb) \<le> n
                      \<longrightarrow> fst (decode_frame env n tone spb invert pos)
                            = pos + (8 + int (unat (get_be32 (drop 4 hdr))) + 4)
                                      * (8 * REP * spb))))"
proof -
  define W where "W = 8 * REP * spb"
  have W: "0 < W"
    using assms by (simp add: W_def REP_def)
  obtain hdr where hdr: "decode_bytes n tone spb invert 8 pos = Some (hdr, pos + 8 * W)"
    and len: "length hdr = 8"
    using decode_bytes_in_bounds [of spb pos 8 n tone invert] assms unfolding W_def
    by auto
  let ?LEN = "get_be32 (drop 4 hdr)"
  have val: "unat ?LEN = be32_value (drop 4 hdr)"
    using len by (simp add: get_be32_value)
  have bad: "decode_frame env n tone spb invert pos = (pos + 8 * W, Inl BadLen)"
    if "take 4 hdr = MAGIC" "?LEN = 0 \<or> ?LEN > 2000000"
    using that by (auto simp add: decode_frame_def hdr Let_def)
  have good1: "snd (decode_frame env n tone spb invert pos) \<noteq> Inl BadLen"
    if "take 4 hdr = MAGIC" "0 < ?LEN" "?LEN \<le> 2000000"
  proof -
    have "\<not> (?LEN = 0 \<or> ?LEN > 2000000)"
      using that by (auto simp add: word_greater_zero_iff leD)
    then show ?thesis
      using that(1) unfolding decode_frame_def hdr
      by (simp add: Let_def split: option.splits prod.splits)
  qed
  have good2: "fst (decode_frame env n tone spb invert pos) = pos + (8 + int (unat ?LEN) + 4) * W"
    if "take 4 hdr = MAGIC" "0 < ?LEN" "?LEN \<le> 2000000" "frame_alloc env"
      "pos + (8 + int (unat ?LEN) + 4) * W \<le> n"
  proof -
    define K where "K = uint ?LEN"
    have K: "int (unat ?LEN) = K"
      by (simp add: K_def)
    have no: "\<not> (?LEN = 0 \<or> ?LEN > 2000000)"
      using that by (auto simp add: word_greater_zero_iff leD)
    have p1: "0 \<le> pos + 8 * W"
      using assms(2) W by linarith
    have b: "pos + 8 * W + K * W + 4 * W \<le> n"
      using that(5) unfolding K by (simp add: algebra_simps)
    then have "pos + 8 * W + K * W \<le> n"
      using W by linarith
    with decode_bytes_in_bounds [OF assms(1) p1, of "unat ?LEN" n tone invert]
    obtain body where body: "decode_bytes n tone spb invert (unat ?LEN) (pos + 8 * W)
                               = Some (body, pos + 8 * W + K * W)"
      unfolding W_def K by blast
    have "0 \<le> K * W"
      using W by (simp add: K_def)
    then have p2: "0 \<le> pos + 8 * W + K * W"
      using p1 by linarith
    from decode_bytes_in_bounds [OF assms(1) p2, of 4 n tone invert] b
    obtain crc where crc: "decode_bytes n tone spb invert 4 (pos + 8 * W + K * W)
                             = Some (crc, pos + 8 * W + K * W + 4 * W)"
      unfolding W_def by auto
    have "decode_frame env n tone spb invert pos
            = (case decode_bytes n tone spb invert (unat ?LEN) (pos + 8 * W) of
                 None \<Rightarrow> (pos + 8 * W, Inl OutOfBounds)
               | Some (body, pos2) \<Rightarrow>
                   (case decode_bytes n tone spb invert 4 pos2 of
                      None \<Rightarrow> (pos2, Inl OutOfBounds)
                    | Some (crc_bytes, pos3) \<Rightarrow>
                        (pos3,
                         if crc32_compute crc32_init (hdr @ body) \<noteq> get_be32 crc_bytes
                         then Inl CrcMismatch
                         else if \<not> plain_alloc env then Inl AllocFailed
                         else (case decrypt env body of
                                 None \<Rightarrow> Inl DecryptFailed
                               | Some plain \<Rightarrow> Inr plain))))"
      using that(1,4) no unfolding decode_frame_def hdr
      by (simp add: Let_def split: option.splits)
    then have "fst (decode_frame env n tone spb invert pos) = pos + 8 * W + K * W + 4 * W"
      by (simp only: body crc option.case prod.case fst_conv)
    then show ?thesis
      unfolding K by (simp add: algebra_simps)
  qed
  show ?thesis
    using hdr val bad good1 good2 unfolding W_def by blast
qed


theorem badlen_rejection_witness:
  "(0::int) < 2 \<and> (0::int) \<le> 0 \<and> 0 + 8 * (8 * REP * 2) \<le> (384::int)
   \<and> decode_frame \<lparr>frame_alloc = True, plain_alloc = True, decrypt = Some\<rparr> 384
         (clean_line (concat (map byte_symbols [0x53, 0x54, 0x45, 0x47, 0, 0, 0, 0])) 2)
         2 False 0
       = (384, Inl BadLen)
   \<and> decode_frame \<lparr>frame_alloc = True, plain_alloc = True, decrypt = Some\<rparr> 624
         (clean_line (concat (map byte_symbols
            [0x53, 0x54, 0x45, 0x47, 0, 0, 0, 1, 0xAB, 0x20, 0xCB, 0xBF, 0x0A])) 2)
         2 False 0
       = (624, Inr [0xAB])"
proof -
  let ?env = "\<lparr>frame_alloc = True, plain_alloc = True, decrypt = Some\<rparr>"
  define bad where
    "bad = clean_line (concat (map byte_symbols [0x53, 0x54, 0x45, 0x47, 0, 0, 0, 0])) 2"
  define good where
    "good = clean_line (concat (map byte_symbols
              [0x53, 0x54, 0x45, 0x47, 0, 0, 0, 1, 0xAB, 0x20, 0xCB, 0xBF, 0x0A])) 2"
  have h0: "decode_bytes 384 bad 2 False 8 0 = Some ([0x53, 0x54, 0x45, 0x47, 0, 0, 0, 0], 384)"
    unfolding bad_def by code_simp
  have bad: "decode_frame ?env 384 bad 2 False 0 = (384, Inl BadLen)"
    using badlen_rejection [of 2 0 384 bad False ?env] h0
    by (simp add: REP_def MAGIC_def get_be32_def)
  have h1: "decode_bytes 624 good 2 False 8 0 = Some ([0x53, 0x54, 0x45, 0x47, 0, 0, 0, 1], 384)"
    and b1: "decode_bytes 624 good 2 False (Suc 0) 384 = Some ([0xAB], 432)"
    and c1: "decode_bytes 624 good 2 False 4 432 = Some ([0x20, 0xCB, 0xBF, 0x0A], 624)"
    unfolding good_def by code_simp+
  have ref: "crc32_reference [0x53, 0x54, 0x45, 0x47, 0, 0, 0, 1, 0xAB] = 0x20CBBF0A"
    by code_simp
  have crc: "crc32_compute crc32_init [0x53, 0x54, 0x45, 0x47, 0, 0, 0, 1, 0xAB] = 0x20CBBF0A"
    unfolding crc32_compute_def foldl_crc32_round crc32_reference_def [symmetric]
    by (rule ref)
  have good: "decode_frame ?env 624 good 2 False 0 = (624, Inr [0xAB])"
    unfolding decode_frame_def h1
    by (simp add: MAGIC_def get_be32_def b1 c1 crc del: decode_bytes.simps)
  show ?thesis
    using bad good unfolding bad_def good_def by (simp add: REP_def)
qed

subsection \<open>Scan ranges\<close>

lemma steps_from_unfold:
  assumes "1 \<le> step"
  shows "steps_from lo step hi = (if lo \<le> hi then lo # steps_from (lo + step) step hi else [])"
proof (cases "lo \<le> hi")
  case False
  then have "(hi - lo) div step < 0"
    using assms by (simp add: div_neg_pos_less0)
  then show ?thesis
    using False by (simp add: steps_from_def)
next
  case True
  define K where "K = nat ((hi - (lo + step)) div step + 1)"
  have "(hi - (lo + step)) div step = (hi - lo) div step - 1"
    using assms div_add_self2 [of step "hi - lo - step"] by (simp add: algebra_simps)
  moreover have "0 \<le> (hi - lo) div step"
    using True assms by (simp add: pos_imp_zdiv_nonneg_iff)
  ultimately have K: "nat ((hi - lo) div step + 1) = Suc K"
    by (simp add: K_def)
  have "map (\<lambda>k. lo + int k * step) [0..<Suc K]
          = lo # map (\<lambda>k. lo + step + int k * step) [0..<K]"
    by (simp add: upt_conv_Cons map_Suc_upt [symmetric] algebra_simps del: upt_Suc)
  then show ?thesis
    using True by (simp add: steps_from_def K K_def [symmetric])
qed

lemma set_steps_from:
  assumes "1 \<le> step"
  shows "set (steps_from lo step hi) = {x. lo \<le> x \<and> x \<le> hi \<and> step dvd (x - lo)}"
proof (intro set_eqI iffI)
  fix x
  assume "x \<in> set (steps_from lo step hi)"
  then obtain k where kn: "k < nat ((hi - lo) div step + 1)" and kx: "x = lo + int k * step"
    unfolding steps_from_def by auto
  from kn have "int k \<le> (hi - lo) div step"
    by linarith
  with kx have k: "x = lo + int k * step" "int k \<le> (hi - lo) div step"
    by simp_all
  then have "int k * step \<le> ((hi - lo) div step) * step"
    using assms by (simp add: mult_right_mono)
  also have "\<dots> \<le> hi - lo"
    using assms by (metis div_mult_mod_eq le_add_same_cancel1 pos_mod_sign zero_less_one_class.zero_less_one less_le_trans le_less_trans)
  finally have "x \<le> hi"
    using k by simp
  moreover have "lo \<le> x"
    using k assms by simp
  ultimately show "x \<in> {x. lo \<le> x \<and> x \<le> hi \<and> step dvd (x - lo)}"
    using k by simp
next
  fix x
  assume "x \<in> {x. lo \<le> x \<and> x \<le> hi \<and> step dvd (x - lo)}"
  then have x: "lo \<le> x" "x \<le> hi" "step dvd (x - lo)"
    by simp_all
  then obtain j where j: "x - lo = step * j"
    by (auto simp add: dvd_def)
  have "0 \<le> step * j"
    using x(1) j by simp
  then have j0: "0 \<le> j"
    using assms by (simp add: zero_le_mult_iff)
  have "j = (x - lo) div step"
    using j assms by simp
  also have "\<dots> \<le> (hi - lo) div step"
    using x(2) assms by (simp add: zdiv_mono1)
  finally have "nat j < nat ((hi - lo) div step + 1)"
    using j0 by simp
  moreover have "x = lo + int (nat j) * step"
    using j j0 by (simp add: algebra_simps)
  ultimately show "x \<in> set (steps_from lo step hi)"
    unfolding steps_from_def by (auto intro!: image_eqI [where x = "nat j"])
qed

subsection \<open>Coarse search\<close>

lemma search_step_pos: "1 \<le> search_step spb"
  by (simp add: search_step_def Let_def)

lemma score_loop_in_bounds:
  "0 < spb \<Longrightarrow> 0 \<le> off \<Longrightarrow> 0 \<le> b \<Longrightarrow>
   \<exists>s. score_loop n tone off spb pre_bits invert b score = Some s"
proof (induction n tone off spb pre_bits invert b score rule: score_loop.induct)
  case (1 n tone off spb pre_bits invert b score)
  show ?case
  proof (cases "b < pre_bits \<and> \<not> off + b * spb + spb \<ge> n")
    case False
    then show ?thesis
      by (subst score_loop.simps) (auto simp add: Let_def)
  next
    case True
    have "0 \<le> b * spb"
      using "1.prems" by simp
    then have pos: "0 \<le> off + b * spb"
      using "1.prems" by linarith
    have det: "detect_bit_q n tone (off + b * spb) spb invert
                 = Some (tone (off + b * spb) spb \<noteq> invert)"
      using True pos "1.prems" by (simp add: detect_in_bounds)
    have "\<exists>s. score_loop n tone off spb pre_bits invert (b + 1)
                 (if (tone (off + b * spb) spb \<noteq> invert) = odd b then score + 1 else score)
               = Some s"
      using True det "1.prems" by (intro "1.IH") auto
    then show ?thesis
      using True det by (subst score_loop.simps) (simp add: Let_def)
  qed
qed

lemma score_preamble_in_bounds:
  "0 < spb \<Longrightarrow> 0 \<le> off \<Longrightarrow> \<exists>s. score_preamble n tone off spb pre_bits invert = Some s"
  unfolding score_preamble_def by (rule score_loop_in_bounds) simp_all

lemma both_polarities_Cons:
  "both_polarities (off # offs) = (off, False) # (off, True) # both_polarities offs"
  by (simp add: both_polarities_def)

lemma both_polarities_Nil: "both_polarities [] = []"
  by (simp add: both_polarities_def)

lemma coarse_loop_scored:
  "0 < spb \<Longrightarrow> 0 \<le> off \<Longrightarrow> best_score st \<le> early_stop pre_bits \<Longrightarrow>
   \<exists>st'. coarse_loop n tone spb pre_bits smax off st = Some st'
      \<and> scored st' = scored st
           @ both_polarities
               (take_until (attains (early_stop pre_bits) n tone spb pre_bits)
                  (steps_from off (search_step spb) (smax - pre_bits * spb - 1)))
      \<and> (early_stop pre_bits < best_score st'
           \<longleftrightarrow> (\<exists>x \<in> set (steps_from off (search_step spb) (smax - pre_bits * spb - 1)).
                  attains (early_stop pre_bits) n tone spb pre_bits x))"
proof (induction n tone spb pre_bits smax off st rule: coarse_loop.induct)
  case (1 n tone spb pre_bits smax off st)
  let ?thr = "early_stop pre_bits"
  let ?hot = "attains ?thr n tone spb pre_bits"
  let ?hi = "smax - pre_bits * spb - 1"
  note unf = steps_from_unfold [OF search_step_pos, of off spb ?hi]
  show ?case
  proof (cases "off + pre_bits * spb < smax")
    case False
    then have "steps_from off (search_step spb) ?hi = []"
      by (simp add: unf)
    then show ?thesis
      using False "1.prems"(3) by (subst coarse_loop.simps) (simp add: both_polarities_Nil)
  next
    case True
    then have list: "steps_from off (search_step spb) ?hi
                       = off # steps_from (off + search_step spb) (search_step spb) ?hi"
      by (simp add: unf)
    obtain s0 where s0: "score_preamble n tone off spb pre_bits False = Some s0"
      using score_preamble_in_bounds "1.prems"(1,2) by blast
    obtain s1 where s1: "score_preamble n tone off spb pre_bits True = Some s1"
      using score_preamble_in_bounds "1.prems"(1,2) by blast
    define st1 where "st1 = (if s0 > best_score st
                             then st\<lparr>best_score := s0, best_off := off, best_inv := False\<rparr>
                             else st)"
    define st2 where "st2 = (if s1 > best_score st1
                             then st1\<lparr>best_score := s1, best_off := off, best_inv := True\<rparr>
                             else st1)"
    define st3 where "st3 = st2\<lparr>scored := scored st2 @ [(off, False), (off, True)]\<rparr>"
    have best: "best_score st3 = max (max (best_score st) s0) s1"
      by (simp add: st3_def st2_def st1_def)
    have log: "scored st3 = scored st @ [(off, False), (off, True)]"
      by (simp add: st3_def st2_def st1_def)
    have hot: "?hot off \<longleftrightarrow> ?thr < best_score st3"
      using "1.prems"(3) by (auto simp add: attains_def s0 s1 best)
    have eq: "coarse_loop n tone spb pre_bits smax off st
                = (if ?thr < best_score st3 then Some st3
                   else coarse_loop n tone spb pre_bits smax (off + search_step spb) st3)"
      using True
      by (subst coarse_loop.simps) (simp add: s0 s1 Let_def st1_def st2_def st3_def)
    show ?thesis
    proof (cases "?thr < best_score st3")
      case stop: True
      then show ?thesis
        using hot by (simp add: eq list log both_polarities_Cons both_polarities_Nil)
    next
      case go: False
      have "0 \<le> off + search_step spb"
        using "1.prems"(2) search_step_pos [of spb] by linarith
      moreover have "best_score st3 \<le> ?thr"
        using go by simp
      ultimately obtain st' where
        st': "coarse_loop n tone spb pre_bits smax (off + search_step spb) st3 = Some st'"
          "scored st' = scored st3
             @ both_polarities
                 (take_until ?hot (steps_from (off + search_step spb) (search_step spb) ?hi))"
          "?thr < best_score st'
             \<longleftrightarrow> (\<exists>x \<in> set (steps_from (off + search_step spb) (search_step spb) ?hi). ?hot x)"
        using "1.IH" [OF True s0 st1_def s1 st2_def st3_def go "1.prems"(1)]
        by blast
      show ?thesis
        using go hot st' by (simp add: eq list log both_polarities_Cons both_polarities_Nil)
    qed
  qed
qed

lemma take_until_is_take: "\<exists>k. take_until P xs = take k xs"
proof (induction xs)
  case Nil
  show ?case by simp
next
  case (Cons x xs)
  then obtain k where k: "take_until P xs = take k xs"
    by blast
  show ?case
  proof (cases "P x")
    case True
    then have "take_until P (x # xs) = take (Suc 0) (x # xs)"
      by simp
    then show ?thesis
      by blast
  next
    case False
    then have "take_until P (x # xs) = take (Suc k) (x # xs)"
      by (simp add: k)
    then show ?thesis
      by blast
  qed
qed

lemma take_until_none: "(\<forall>x \<in> set xs. \<not> P x) \<Longrightarrow> take_until P xs = xs"
  by (induction xs) simp_all

lemma take_until_first:
  "i < length xs \<Longrightarrow> P (xs ! i) \<Longrightarrow> (\<forall>j<i. \<not> P (xs ! j)) \<Longrightarrow>
   take_until P xs = take (Suc i) xs"
proof (induction xs arbitrary: i)
  case Nil
  then show ?case by simp
next
  case (Cons x xs)
  show ?case
  proof (cases i)
    case 0
    then show ?thesis
      using Cons.prems by simp
  next
    case (Suc i')
    have "\<not> P x"
      using Cons.prems(3) Suc by auto
    moreover have "take_until P xs = take (Suc i') xs"
      using Cons.prems Suc by (intro Cons.IH) auto
    ultimately show ?thesis
      using Suc by simp
  qed
qed

lemma coarse_search_scored:
  assumes "0 < spb" "0 \<le> pre_bits"
  shows "\<exists>st. coarse_search n tone spb pre_bits smax = Some st
      \<and> scored st = both_polarities
                        (take_until (attains (early_stop pre_bits) n tone spb pre_bits)
                           (scan_offsets spb pre_bits smax))
      \<and> (early_stop pre_bits < best_score st
           \<longleftrightarrow> (\<exists>x \<in> set (scan_offsets spb pre_bits smax).
                  attains (early_stop pre_bits) n tone spb pre_bits x))"
proof -
  have "0 \<le> early_stop pre_bits"
    using assms(2) by (simp add: early_stop_def pos_imp_zdiv_nonneg_iff)
  then have "best_score \<lparr>best_off = - 1, best_inv = False, best_score = - 1, scored = []\<rparr>
               \<le> early_stop pre_bits"
    by simp
  from coarse_loop_scored [OF assms(1) _ this, of 0 n tone smax]
  show ?thesis
    by (simp add: coarse_search_def scan_offsets_def)
qed

text \<open>
  C2 (amended). With \<open>spb\<close> positive, the coarse search evaluates the offsets
  \<open>0, step, 2 * step, ...\<close> with \<open>step = max(spb / 6, 1)\<close> for as long as
  \<open>off + pre_bits * spb < search_max\<close>, where \<open>search_max = min(3 * fs, N)\<close>: the
  candidates are the multiples of \<open>step\<close> in the half-open interval
  \<open>[0, search_max - pre_bits * spb)\<close>. The offsets evaluated are an initial part of that
  range, each scored for polarity 0 and then polarity 1, and the whole range when the scan
  does not end early.
\<close>

theorem coarse_scan_range:
  assumes "0 < spb" "0 \<le> pre_bits"
  shows "\<exists>st. coarse_search n tone spb pre_bits (search_max fs n) = Some st
      \<and> (\<exists>k. scored st
                = both_polarities (take k (scan_offsets spb pre_bits (search_max fs n))))
      \<and> (best_score st \<le> early_stop pre_bits \<longrightarrow>
            scored st = both_polarities (scan_offsets spb pre_bits (search_max fs n)))
      \<and> set (scan_offsets spb pre_bits (search_max fs n))
          = {off. 0 \<le> off \<and> off + pre_bits * spb < search_max fs n \<and> search_step spb dvd off}
      \<and> search_step spb = max (spb div 6) 1
      \<and> search_max fs n = min (3 * fs) n"
proof -
  let ?offs = "scan_offsets spb pre_bits (search_max fs n)"
  let ?hot = "attains (early_stop pre_bits) n tone spb pre_bits"
  obtain st where st: "coarse_search n tone spb pre_bits (search_max fs n) = Some st"
    and log: "scored st = both_polarities (take_until ?hot ?offs)"
    and stop: "early_stop pre_bits < best_score st \<longleftrightarrow> (\<exists>x \<in> set ?offs. ?hot x)"
    using coarse_search_scored [OF assms] by blast
  obtain k where "take_until ?hot ?offs = take k ?offs"
    using take_until_is_take by blast
  then have pre: "\<exists>k. scored st = both_polarities (take k ?offs)"
    using log by auto
  have full: "scored st = both_polarities ?offs" if "best_score st \<le> early_stop pre_bits"
  proof -
    have "\<forall>x \<in> set ?offs. \<not> ?hot x"
      using that stop by auto
    then show ?thesis
      by (simp add: log take_until_none)
  qed
  have range: "set ?offs
      = {off. 0 \<le> off \<and> off + pre_bits * spb < search_max fs n \<and> search_step spb dvd off}"
    unfolding scan_offsets_def set_steps_from [OF search_step_pos] by auto
  have "search_step spb = max (spb div 6) 1" "search_max fs n = min (3 * fs) n"
    by (simp_all add: search_step_def search_max_def Let_def)
  with st pre full range show ?thesis
    by blast
qed

theorem coarse_scan_range_witness:
  "(0::int) < 662 \<and> (0::int) \<le> 100
   \<and> scan_offsets 662 100 (search_max 44100 66421) = [0, 110, 220]
   \<and> map_option scored (coarse_search 66421 (clean_line [] 662) 662 100 (search_max 44100 66421))
       = Some [(0, False), (0, True), (110, False), (110, True), (220, False), (220, True)]"
proof -
  define quiet where "quiet = clean_line [] 662"
  have offs: "scan_offsets 662 100 (search_max 44100 66421) = [0, 110, 220]"
    by code_simp
  have best: "map_option best_score (coarse_search 66421 quiet 662 100 (search_max 44100 66421))
                = Some 50"
    unfolding quiet_def by code_simp
  have thr: "early_stop 100 = 93"
    by code_simp
  have "map_option scored (coarse_search 66421 quiet 662 100 (search_max 44100 66421))
          = Some (both_polarities [0, 110, 220])"
    using coarse_scan_range [of 662 100 66421 quiet 44100] best
    by (auto simp add: offs thr)
  then show ?thesis
    unfolding quiet_def by (simp add: offs both_polarities_def)
qed

text \<open>
  The range as the claim words it, \<open>[0, search_max)\<close>, is not what the loop scans: on
  a silent capture of 66421 samples (best score 50, so no early stop) the offsets scored
  are 0, 110 and 220 only, although 330 is a multiple of the step below
  \<open>search_max = 66421\<close>.
\<close>

theorem coarse_scan_range_counterexample:
  "map_option scored (coarse_search 66421 (clean_line [] 662) 662 100 (search_max 44100 66421))
     = Some [(0, False), (0, True), (110, False), (110, True), (220, False), (220, True)]
   \<and> map_option best_score
        (coarse_search 66421 (clean_line [] 662) 662 100 (search_max 44100 66421)) = Some 50
   \<and> early_stop 100 = 93
   \<and> search_max 44100 66421 = 66421 \<and> search_step 662 = 110
   \<and> (0::int) \<le> 330 \<and> (330::int) < 66421 \<and> (330::int) mod 110 = 0"
  by code_simp

text \<open>
  C3 (amended). The scan stops as soon as the best score so far is strictly above
  \<^verbatim>\<open>(int)(0.93 * pre_bits)\<close>, the integer part of \<open>0.93 * pre_bits\<close> (93 for 100
  preamble bits, so a score of 94 or more stops it). On every input whose first offset
  with a score above that bound is the \<open>i\<close>-th of the range, exactly the first \<open>i + 1\<close>
  offsets are evaluated and no later one; on every input where no offset of the range
  scores above the bound, the full range is scanned.
\<close>

theorem coarse_early_termination:
  assumes "0 < spb" "0 \<le> pre_bits"
  shows "\<exists>st. coarse_search n tone spb pre_bits smax = Some st
      \<and> (\<forall>i < length (scan_offsets spb pre_bits smax).
            attains (early_stop pre_bits) n tone spb pre_bits (scan_offsets spb pre_bits smax ! i)
            \<and> (\<forall>j<i. \<not> attains (early_stop pre_bits) n tone spb pre_bits
                          (scan_offsets spb pre_bits smax ! j))
            \<longrightarrow> scored st = both_polarities (take (Suc i) (scan_offsets spb pre_bits smax))
                \<and> early_stop pre_bits < best_score st)
      \<and> ((\<forall>off \<in> set (scan_offsets spb pre_bits smax).
              \<not> attains (early_stop pre_bits) n tone spb pre_bits off)
            \<longrightarrow> scored st = both_polarities (scan_offsets spb pre_bits smax)
                \<and> best_score st \<le> early_stop pre_bits)
      \<and> early_stop pre_bits = 93 * pre_bits div 100"
proof -
  let ?offs = "scan_offsets spb pre_bits smax"
  let ?hot = "attains (early_stop pre_bits) n tone spb pre_bits"
  obtain st where st: "coarse_search n tone spb pre_bits smax = Some st"
    and log: "scored st = both_polarities (take_until ?hot ?offs)"
    and stop: "early_stop pre_bits < best_score st \<longleftrightarrow> (\<exists>x \<in> set ?offs. ?hot x)"
    using coarse_search_scored [OF assms] by blast
  have first: "scored st = both_polarities (take (Suc i) ?offs) \<and> early_stop pre_bits < best_score st"
    if "i < length ?offs" "?hot (?offs ! i)" "\<forall>j<i. \<not> ?hot (?offs ! j)" for i
  proof -
    have "take_until ?hot ?offs = take (Suc i) ?offs"
      using that by (rule take_until_first)
    moreover have "\<exists>x \<in> set ?offs. ?hot x"
      using that(1,2) nth_mem by blast
    ultimately show ?thesis
      using log stop by simp
  qed
  have none: "scored st = both_polarities ?offs \<and> best_score st \<le> early_stop pre_bits"
    if "\<forall>off \<in> set ?offs. \<not> ?hot off"
    using that log stop by (simp add: take_until_none)
  have "early_stop pre_bits = 93 * pre_bits div 100"
    by (simp add: early_stop_def)
  with st first none show ?thesis
    by blast
qed

theorem coarse_early_termination_witness:
  "(0::int) < 662 \<and> (0::int) \<le> 100 \<and> early_stop 100 = 93
   \<and> score_preamble 66421 (clean_line (preamble_symbols 100) 662) 0 662 100 False = Some 100
   \<and> map_option scored
        (coarse_search 66421 (clean_line (preamble_symbols 100) 662) 662 100 66421)
       = Some [(0, False), (0, True)]
   \<and> map_option scored
        (coarse_search 66421 (clean_line (replicate 14 False @ drop 14 (preamble_symbols 100)) 662)
           662 100 66421)
       = Some [(0, False), (0, True), (110, False), (110, True), (220, False), (220, True)]"
proof -
  define clean where "clean = clean_line (preamble_symbols 100) 662"
  define worn where
    "worn = clean_line (replicate 14 False @ drop 14 (preamble_symbols 100)) 662"
  have offs: "scan_offsets 662 100 66421 = [0, 110, 220]"
    by code_simp
  have thr: "early_stop 100 = 93"
    by code_simp
  have s: "score_preamble 66421 clean 0 662 100 False = Some 100"
    unfolding clean_def by code_simp
  then have hot: "attains 93 66421 clean 662 100 0"
    by (simp add: attains_def)
  have cold: "\<not> attains 93 66421 worn 662 100 0" "\<not> attains 93 66421 worn 662 100 110"
    "\<not> attains 93 66421 worn 662 100 220"
    unfolding worn_def by code_simp+
  have c: "map_option scored (coarse_search 66421 clean 662 100 66421)
             = Some (both_polarities (take (Suc 0) [0, 110, 220]))"
    using coarse_early_termination [of 662 100 66421 clean 66421] hot
    by (auto simp add: offs thr)
  have w: "map_option scored (coarse_search 66421 worn 662 100 66421)
             = Some (both_polarities [0, 110, 220])"
    using coarse_early_termination [of 662 100 66421 worn 66421] cold
    by (auto simp add: offs thr)
  show ?thesis
    using c w s thr unfolding clean_def worn_def by (simp add: both_polarities_def)
qed

text \<open>
  A best score equal to the ceiling of \<open>0.93 * pre_bits\<close>, 93 of 100, does not stop
  the scan: with 7 of the 100 preamble symbols wrong the score at offset 0 is 93, and
  the offsets 110 and 220 are still evaluated.
\<close>

theorem coarse_early_termination_counterexample:
  "score_preamble 66421 (clean_line (replicate 14 False @ drop 14 (preamble_symbols 100)) 662)
     0 662 100 False = Some 93
   \<and> map_option scored
        (coarse_search 66421 (clean_line (replicate 14 False @ drop 14 (preamble_symbols 100)) 662)
           662 100 (search_max 44100 66421))
       = Some [(0, False), (0, True), (110, False), (110, True), (220, False), (220, True)]"
  by code_simp

subsection \<open>Refinement on the magic\<close>

lemma refine_step_pos: "1 \<le> refine_step spb"
  by (simp add: refine_step_def Let_def)

lemma take_until_append:
  "take_until P (xs @ ys)
     = (if \<exists>x \<in> set xs. P x then take_until P xs else xs @ take_until P ys)"
  by (induction xs) simp_all

lemma find_append:
  "find P (xs @ ys) = (case find P xs of None \<Rightarrow> find P ys | Some x \<Rightarrow> Some x)"
  by (induction xs) simp_all

lemma refine_try_pair:
  assumes "0 < spb"
  shows "refine_try n tone spb p [False, True] tried
           = Some (find (magic_at n tone spb)
                      (both_polarities (filter (\<lambda>p. 0 \<le> p \<and> p + 4 * REP * spb * 8 < n) [p])),
                   tried @ take_until (magic_at n tone spb)
                      (both_polarities (filter (\<lambda>p. 0 \<le> p \<and> p + 4 * REP * spb * 8 < n) [p])))"
proof (cases "0 \<le> p \<and> p + 4 * REP * spb * 8 < n")
  case False
  then show ?thesis
    by (auto simp add: both_polarities_Nil)
next
  case True
  then have "p + int 4 * (8 * REP * spb) \<le> n"
    by simp
  with True assms have "\<exists>vs. decode_bytes n tone spb inv_try 4 p
                               = Some (vs, p + int 4 * (8 * REP * spb))" for inv_try
    using decode_bytes_in_bounds [of spb p 4 n tone inv_try] by blast
  then obtain m0 m1 t0 t1 where
    d: "decode_bytes n tone spb False 4 p = Some (m0, t0)"
       "decode_bytes n tone spb True 4 p = Some (m1, t1)"
    by metis
  show ?thesis
    using True d
    by (simp add: both_polarities_Cons both_polarities_Nil magic_at_def
        del: decode_bytes.simps)
qed

lemma both_polarities_append:
  "both_polarities (xs @ ys) = both_polarities xs @ both_polarities ys"
  by (simp add: both_polarities_def)

lemma find_None_take_until: "find P xs = None \<Longrightarrow> take_until P xs = xs"
  by (induction xs) (simp_all split: if_splits)

lemma find_Some_set: "find P xs = Some x \<Longrightarrow> \<exists>x \<in> set xs. P x"
  by (induction xs) (auto split: if_splits)

lemma refine_loop_candidates:
  "0 < spb \<Longrightarrow>
   refine_loop n tone spb base delta tried
     = Some (find (magic_at n tone spb)
               (both_polarities
                  (filter (\<lambda>p. 0 \<le> p \<and> p + 4 * REP * spb * 8 < n)
                     (map (\<lambda>delta. base + delta) (steps_from delta (refine_step spb) spb)))),
             tried @ take_until (magic_at n tone spb)
               (both_polarities
                  (filter (\<lambda>p. 0 \<le> p \<and> p + 4 * REP * spb * 8 < n)
                     (map (\<lambda>delta. base + delta) (steps_from delta (refine_step spb) spb)))))"
proof (induction n tone spb base delta tried rule: refine_loop.induct)
  case (1 n tone spb base delta tried)
  let ?hit = "magic_at n tone spb"
  let ?guard = "\<lambda>p. 0 \<le> p \<and> p + 4 * REP * spb * 8 < n"
  let ?C0 = "both_polarities (filter ?guard [base + delta])"
  let ?rest = "steps_from (delta + refine_step spb) (refine_step spb) spb"
  let ?C1 = "both_polarities (filter ?guard (map (\<lambda>delta. base + delta) ?rest))"
  note unf = steps_from_unfold [OF refine_step_pos, of delta spb spb]
  show ?case
  proof (cases "delta \<le> spb")
    case False
    then show ?thesis
      by (subst refine_loop.simps) (simp add: unf both_polarities_Nil)
  next
    case True
    have C: "both_polarities
               (filter ?guard (map (\<lambda>delta. base + delta) (steps_from delta (refine_step spb) spb)))
             = ?C0 @ ?C1"
      using True by (simp add: unf both_polarities_append [symmetric])
    have inner: "refine_try n tone spb (base + delta) [False, True] tried
                 = Some (find ?hit ?C0, tried @ take_until ?hit ?C0)"
      using "1.prems" by (rule refine_try_pair)
    show ?thesis
    proof (cases "find ?hit ?C0")
      case None
      have "refine_loop n tone spb base (delta + refine_step spb) (tried @ take_until ?hit ?C0)
              = Some (find ?hit ?C1, (tried @ take_until ?hit ?C0) @ take_until ?hit ?C1)"
        using "1.IH" [OF True inner refl None "1.prems"] .
      moreover have "take_until ?hit ?C0 = ?C0"
        using None by (rule find_None_take_until)
      moreover have "\<not> (\<exists>x \<in> set ?C0. ?hit x)"
        using None unfolding find_None_iff by blast
      ultimately show ?thesis
        unfolding C using True None
        by (subst refine_loop.simps)
          (simp only: inner find_append take_until_append option.case prod.case if_True if_False
            append_assoc)
    next
      case (Some found)
      then have "\<exists>x \<in> set ?C0. ?hit x"
        by (rule find_Some_set)
      then show ?thesis
        unfolding C using True Some
        by (subst refine_loop.simps)
          (simp only: inner find_append take_until_append option.case prod.case if_True)
    qed
  qed
qed

text \<open>
  C4 (amended). With \<open>spb\<close> positive, the refinement tries the positions \<open>base + delta\<close>
  for \<open>delta\<close> from \<open>-spb\<close> to \<open>+spb\<close> in steps of \<open>max(spb / 24, 1)\<close> that pass the
  guards, and at every position polarity 0 first and polarity 1 second, whatever polarity
  the coarse search found best (it is no input of the refinement). The first candidate in
  that order whose four decoded bytes are \<open>"STEG"\<close> is accepted as (position, invert),
  and no candidate after it is tried.
\<close>

theorem refinement_order:
  assumes "0 < spb"
  shows "refine n tone spb base
           = Some (find (magic_at n tone spb) (refine_candidates n spb base),
                   take_until (magic_at n tone spb) (refine_candidates n spb base))
         \<and> refine_candidates n spb base
           = concat (map (\<lambda>p. [(p, False), (p, True)])
               (filter (\<lambda>p. 0 \<le> p \<and> p + 4 * REP * spb * 8 < n)
                  (map (\<lambda>delta. base + delta) (steps_from (- spb) (max (spb div 24) 1) spb))))"
proof -
  have "refine_step spb = max (spb div 24) 1"
    by (simp add: refine_step_def Let_def)
  then show ?thesis
    using refine_loop_candidates [OF assms, of n tone base "- spb" "[]"]
    by (simp add: refine_def refine_candidates_def both_polarities_def)
qed

theorem refinement_order_witness:
  "(0::int) < 662
   \<and> refine 272744
        (clean_line (tx_symbols 100
           [0x53, 0x54, 0x45, 0x47, 0, 0, 0, 1, 0xAB, 0x20, 0xCB, 0xBF, 0x0A]) 662)
        662 66200
       = Some (Some (65538, False), [(65538, False)])
   \<and> find (magic_at 272744
        (clean_line (tx_symbols 100
           [0x53, 0x54, 0x45, 0x47, 0, 0, 0, 1, 0xAB, 0x20, 0xCB, 0xBF, 0x0A]) 662) 662)
        (refine_candidates 272744 662 66200)
       = Some (65538, False)"
proof -
  define line where
    "line = clean_line (tx_symbols 100
              [0x53, 0x54, 0x45, 0x47, 0, 0, 0, 1, 0xAB, 0x20, 0xCB, 0xBF, 0x0A]) 662"
  have r: "refine 272744 line 662 66200 = Some (Some (65538, False), [(65538, False)])"
    unfolding line_def by code_simp
  have "find (magic_at 272744 line 662) (refine_candidates 272744 662 66200)
          = Some (65538, False)"
    using refinement_order [of 662 272744 line 66200] r by simp
  with r show ?thesis
    unfolding line_def by simp
qed

text \<open>
  The polarity the coarse search found best is not the one tried first: on an exchanged
  capture the coarse search settles on polarity 1, and the refinement decodes position
  65538 with polarity 0 first and accepts it with polarity 1 second.
\<close>

theorem refinement_order_counterexample:
  "map_option best_inv
     (coarse_search 272744
        (exchanged (clean_line (tx_symbols 100
           [0x53, 0x54, 0x45, 0x47, 0, 0, 0, 1, 0xAB, 0x20, 0xCB, 0xBF, 0x0A]) 662))
        662 100 (search_max 44100 272744))
     = Some True
   \<and> refine 272744
        (exchanged (clean_line (tx_symbols 100
           [0x53, 0x54, 0x45, 0x47, 0, 0, 0, 1, 0xAB, 0x20, 0xCB, 0xBF, 0x0A]) 662))
        662 (0 + 100 * 662)
       = Some (Some (65538, True), [(65538, False), (65538, True)])"
  by code_simp

subsection \<open>Reads of the frame decoder\<close>

text \<open>
  A decoded byte or run of bytes was read inside the buffer, so a frame whose header
  does not fit is not decoded: the decoder leaves the buffer. The refinement guarantees
  no more than room for the four magic bytes behind the position it accepts.
\<close>

lemma detect_Some_in_bounds:
  "0 < len \<Longrightarrow> detect_bit_q n tone start len invert = Some b \<Longrightarrow> start + len \<le> n"
  by (auto simp add: detect_bit_q_def split: if_splits)

lemma coded_ones_Some_in_bounds:
  "coded_ones n tone pos spb invert r ones = Some k \<Longrightarrow> 0 < spb \<Longrightarrow> 0 \<le> r \<Longrightarrow> r < REP \<Longrightarrow>
   pos + REP * spb \<le> n"
proof (induction n tone pos spb invert r ones rule: coded_ones.induct)
  case (1 n tone pos spb invert r ones)
  from "1.prems"(1,4) obtain b where
    b: "detect_bit_q n tone (pos + r * spb) spb invert = Some b"
    and rest: "coded_ones n tone pos spb invert (r + 1) (ones + (if b then 1 else 0)) = Some k"
    by (subst (asm) coded_ones.simps) (auto split: option.splits)
  show ?case
  proof (cases "r + 1 < REP")
    case True
    then show ?thesis
      using "1.IH" [OF "1.prems"(4) b rest "1.prems"(2)] "1.prems"(3) by simp
  next
    case False
    then have "r = 2"
      using "1.prems"(4) by (simp add: REP_def)
    then show ?thesis
      using detect_Some_in_bounds [OF "1.prems"(2) b] by (simp add: REP_def)
  qed
qed

lemma decode_coded_bit_Some_in_bounds:
  "decode_coded_bit n tone pos spb invert = Some b \<Longrightarrow> 0 < spb \<Longrightarrow> pos + REP * spb \<le> n"
  unfolding decode_coded_bit_def
  by (auto dest!: coded_ones_Some_in_bounds simp add: REP_def)

lemma decode_byte_loop_Some_in_bounds:
  "decode_byte_loop n tone spb invert k v pos = Some (v', pos') \<Longrightarrow> 0 < spb \<Longrightarrow> k < 8 \<Longrightarrow>
   pos' \<le> n \<and> pos' = pos + (8 - k) * (REP * spb)"
proof (induction n tone spb invert k v pos rule: decode_byte_loop.induct)
  case (1 n tone spb invert k v pos)
  from "1.prems"(1,3) obtain b where
    b: "decode_coded_bit n tone pos spb invert = Some b"
    and rest: "decode_byte_loop n tone spb invert (k + 1)
                 (push_bit 1 v OR (if b then 1 else 0)) (pos + REP * spb) = Some (v', pos')"
    by (subst (asm) decode_byte_loop.simps) (auto split: option.splits)
  show ?case
  proof (cases "k + 1 < 8")
    case True
    then have "pos' \<le> n \<and> pos' = pos + REP * spb + (8 - (k + 1)) * (REP * spb)"
      using "1.IH" [OF "1.prems"(3) b rest "1.prems"(2)] by simp
    then show ?thesis
      by (simp add: algebra_simps)
  next
    case False
    then have k: "k = 7"
      using "1.prems"(3) by simp
    have "pos' = pos + REP * spb"
      using rest False by (subst (asm) decode_byte_loop.simps) simp
    then show ?thesis
      using decode_coded_bit_Some_in_bounds [OF b "1.prems"(2)] k by simp
  qed
qed

lemma decode_bytes_Some_in_bounds:
  "decode_bytes n tone spb invert cnt pos = Some (vs, pos') \<Longrightarrow> 0 < spb \<Longrightarrow>
   pos' = pos + int cnt * (8 * REP * spb) \<and> (0 < cnt \<longrightarrow> pos' \<le> n)"
proof (induction cnt arbitrary: pos vs)
  case 0
  then show ?case by simp
next
  case (Suc cnt)
  from Suc.prems(1) obtain v p1 ws where
    v: "decode_byte n tone pos spb invert = Some (v, p1)"
    and ws: "decode_bytes n tone spb invert cnt p1 = Some (ws, pos')"
    by (auto split: option.splits)
  have p1: "p1 \<le> n \<and> p1 = pos + (8 - 0) * (REP * spb)"
    using v Suc.prems(2) unfolding decode_byte_def
    by (rule decode_byte_loop_Some_in_bounds) simp
  have ih: "pos' = p1 + int cnt * (8 * REP * spb) \<and> (0 < cnt \<longrightarrow> pos' \<le> n)"
    using ws Suc.prems(2) by (rule Suc.IH)
  show ?case
  proof (cases cnt)
    case 0
    then show ?thesis
      using p1 ih by simp
  next
    case (Suc m)
    then show ?thesis
      using p1 ih by (simp add: algebra_simps)
  qed
qed

lemma header_read_leaves_buffer:
  assumes "0 < spb" "n < pos + 8 * (8 * REP * spb)"
  shows "decode_frame env n tone spb invert pos = (pos, Inl OutOfBounds)"
proof -
  have "decode_bytes n tone spb invert 8 pos = None"
  proof (cases "decode_bytes n tone spb invert 8 pos")
    case None
    then show ?thesis .
  next
    case (Some r)
    obtain vs pos' where "r = (vs, pos')"
      by (cases r)
    with Some decode_bytes_Some_in_bounds [of n tone spb invert 8 pos vs pos'] assms
    show ?thesis
      by simp
  qed
  then show ?thesis
    by (simp add: decode_frame_def)
qed

lemma refine_accepts_guard:
  assumes "0 < spb" "refine n tone spb base = Some (Some (p, inv_try), tried)"
  shows "0 \<le> p \<and> p + 4 * REP * spb * 8 < n"
proof -
  have "find (magic_at n tone spb) (refine_candidates n spb base) = Some (p, inv_try)"
    using refine_loop_candidates [OF assms(1), of n tone base "- spb" "[]"] assms(2)
    by (simp add: refine_def refine_candidates_def)
  then have "(p, inv_try) \<in> set (refine_candidates n spb base)"
    by (auto simp add: find_Some_iff)
  then show ?thesis
    by (auto simp add: refine_candidates_def both_polarities_def)
qed

text \<open>
  C10. The refinement only checks that the four magic bytes lie inside the buffer; the
  decoding of the header, the ciphertext and the CRC that follows checks nothing. On a
  capture of a transmission that is cut off 131000 samples in (sample rate 44100,
  \<open>spb = 662\<close>; the header alone ends at sample 192642), the refinement accepts position
  65538, where the guard holds, and the frame decoder then reads outside the buffer while
  still in the header: the claim of in-bounds access fails on this input.
\<close>

theorem frame_decode_reads_outside_buffer:
  "refine 131000
     (clean_line (tx_symbols 100
        [0x53, 0x54, 0x45, 0x47, 0, 0, 0, 1, 0xAB, 0x20, 0xCB, 0xBF, 0x0A]) 662)
     662 66200
     = Some (Some (65538, False), [(65538, False)])
   \<and> (65538::int) + 4 * REP * 662 * 8 < 131000
   \<and> decode_frame \<lparr>frame_alloc = True, plain_alloc = True, decrypt = Some\<rparr> 131000
       (clean_line (tx_symbols 100
          [0x53, 0x54, 0x45, 0x47, 0, 0, 0, 1, 0xAB, 0x20, 0xCB, 0xBF, 0x0A]) 662)
       662 False 65538
     = (65538, Inl OutOfBounds)
   \<and> receiver \<lparr>frame_alloc = True, plain_alloc = True, decrypt = Some\<rparr> 131000 44100 662 100
       (clean_line (tx_symbols 100
          [0x53, 0x54, 0x45, 0x47, 0, 0, 0, 1, 0xAB, 0x20, 0xCB, 0xBF, 0x0A]) 662)
     = Inl OutOfBounds"
  by code_simp

subsection \<open>A complete capture\<close>

text \<open>
  The receiver on the complete noiseless capture of a one-byte frame (272744 samples at
  44100 Hz): it locks at offset 0, accepts the frame one symbol early, where the majority
  vote still decodes every bit, and returns the ciphertext handed to the decryption.
\<close>

lemma receiver_clean_capture:
  "receiver \<lparr>frame_alloc = True, plain_alloc = True, decrypt = Some\<rparr> 272744 44100 662 100
     (clean_line (tx_symbols 100
        [0x53, 0x54, 0x45, 0x47, 0, 0, 0, 1, 0xAB, 0x20, 0xCB, 0xBF, 0x0A]) 662)
     = Inr [0xAB]"
proof -
  define line where
    "line = clean_line (tx_symbols 100
              [0x53, 0x54, 0x45, 0x47, 0, 0, 0, 1, 0xAB, 0x20, 0xCB, 0xBF, 0x0A]) 662"
  have sync: "map_option best_off (coarse_search 272744 line 662 100 (search_max 44100 272744))
                = Some 0"
    unfolding line_def by code_simp
  have fine: "refine 272744 line 662 66200 = Some (Some (65538, False), [(65538, False)])"
    unfolding line_def by code_simp
  have h: "decode_bytes 272744 line 662 False 8 65538
             = Some ([0x53, 0x54, 0x45, 0x47, 0, 0, 0, 1], 192642)"
    and b: "decode_bytes 272744 line 662 False (Suc 0) 192642 = Some ([0xAB], 208530)"
    and c: "decode_bytes 272744 line 662 False 4 208530 = Some ([0x20, 0xCB, 0xBF, 0x0A], 272082)"
    unfolding line_def by code_simp+
  have ref: "crc32_reference [0x53, 0x54, 0x45, 0x47, 0, 0, 0, 1, 0xAB] = 0x20CBBF0A"
    by code_simp
  have crc: "crc32_compute crc32_init [0x53, 0x54, 0x45, 0x47, 0, 0, 0, 1, 0xAB] = 0x20CBBF0A"
    unfolding crc32_compute_def foldl_crc32_round crc32_reference_def [symmetric]
    by (rule ref)
  have frame: "decode_frame \<lparr>frame_alloc = True, plain_alloc = True, decrypt = Some\<rparr>
                 272744 line 662 False 65538 = (272082, Inr [0xAB])"
    unfolding decode_frame_def h
    by (simp add: MAGIC_def get_be32_def b c crc del: decode_bytes.simps)
  obtain st where st: "coarse_search 272744 line 662 100 (search_max 44100 272744) = Some st"
    "best_off st = 0"
    using sync by auto
  show ?thesis
    unfolding line_def [symmetric] receiver_def
    by (simp add: st fine frame)
qed

end
